theory Spec2Isabelle
  imports
    Complex_Main
    "HOL-Library.Stream"
    "HOL-Library.AList"
    "HOL-Library.Multiset"
begin

section \<open>Mint Statistics: values, errors and the numeric extractor\<close>

text \<open>
  The library receives arbitrary JavaScript values. A value is modelled by the datatype
  \<open>jsval\<close>: the two nullish values, a finite number (a real), the three non-finite
  numbers, strings, booleans, plain objects (their own fields, in an association list)
  and arrays.

  Conventions of the model:
  \<^item> a finite number is a real and arithmetic is exact: the rounding error and the
    overflow of IEEE doubles are not modelled. Comparisons, which the selection and the
    sorting rest on, are the same on doubles; the value of a sum, a quotient or a
    rounding can differ from the double the source computes in its last digits;
  \<^item> a plain object is its list of own fields;
  \<^item> where the source would read or write outside an array, read an inherited member of
    an object, or read a property of a value that is neither an object nor nullish, the
    model returns the outcome \<open>Unmodelled\<close> instead of inventing a value. The theorems
    below show where this outcome cannot occur.
\<close>

datatype jsval =
    JUndefined
  | JNull
  | JNum real
  | JNaN
  | JPosInf
  | JNegInf
  | JStr string
  | JBool bool
  | JObj "(string \<times> jsval) list"
  | JArr "jsval list"

text \<open>
  The errors the source throws. \<open>InvalidInputKind\<close> and \<open>NonNumericValue\<close> are the two
  \<open>TypeError\<close>s of \<open>extractNumbers\<close>; \<open>InvalidRange\<close> is the \<open>RangeError\<close> of
  \<open>percentile\<close>; \<open>InsufficientData\<close> is the \<open>RangeError\<close> of \<open>variance\<close> and \<open>stdev\<close>;
  \<open>NullishPropertyRead\<close> is the \<open>TypeError\<close> the language itself throws for \<open>obj[key]\<close>
  when \<open>obj\<close> is \<open>null\<close> or \<open>undefined\<close>.
\<close>

datatype error =
    InvalidInputKind
  | NonNumericValue nat jsval
  | InvalidRange
  | InsufficientData
  | NullishPropertyRead
  | Unmodelled

text \<open>
  The names every plain object inherits from \<open>Object.prototype\<close>. Reading one of them from
  an object that has no field of that name gives the inherited member, not \<open>undefined\<close>.
\<close>

definition inherited_names :: "string list" where
  "inherited_names =
     [''constructor'', ''hasOwnProperty'', ''isPrototypeOf'', ''propertyIsEnumerable'',
      ''toLocaleString'', ''toString'', ''valueOf'', ''__proto__'',
      ''__defineGetter__'', ''__defineSetter__'', ''__lookupGetter__'', ''__lookupSetter__'']"

text \<open>
  \<open>obj[key]\<close>: the field of an object; \<open>undefined\<close> when the object has no such field and
  inherits none of that name. Inherited members, and the properties of values that are
  not objects, are not modelled.
\<close>

fun get_prop :: "jsval \<Rightarrow> string \<Rightarrow> error + jsval" where
  "get_prop (JObj fields) k =
     (case map_of fields k of
        Some v \<Rightarrow> Inr v
      | None \<Rightarrow> if k \<in> set inherited_names then Inl Unmodelled else Inr JUndefined)"
| "get_prop JUndefined k = Inl NullishPropertyRead"
| "get_prop JNull k = Inl NullishPropertyRead"
| "get_prop v k = Inl Unmodelled"

text \<open>\<open>arr.map(obj => obj[key])\<close>: a new array; the first failing read aborts the map.\<close>

fun map_prop :: "jsval list \<Rightarrow> string \<Rightarrow> error + jsval list" where
  "map_prop [] k = Inr []"
| "map_prop (obj # rest) k =
     (case get_prop obj k of
        Inl e \<Rightarrow> Inl e
      | Inr v \<Rightarrow> (case map_prop rest k of Inl e \<Rightarrow> Inl e | Inr vs \<Rightarrow> Inr (v # vs)))"

text \<open>
  \<open>key ? ... : arr\<close>: an absent key and the empty string are both falsy, and then the
  elements are used as they are.
\<close>

fun truthy_key :: "string option \<Rightarrow> bool" where
  "truthy_key None = False"
| "truthy_key (Some k) = (k \<noteq> [])"

definition mapped_values :: "jsval list \<Rightarrow> string option \<Rightarrow> error + jsval list" where
  "mapped_values arr key = (if truthy_key key then map_prop arr (the key) else Inr arr)"

text \<open>
  The validation loop of \<open>extractNumbers\<close>, from index \<open>i\<close> on, with the array \<open>numbers\<close>
  built so far: nullish values are skipped, a finite number is pushed, anything else throws
  with the index and the value.
\<close>

fun extract_loop :: "jsval list \<Rightarrow> nat \<Rightarrow> real list \<Rightarrow> error + real list" where
  "extract_loop [] i numbers = Inr numbers"
| "extract_loop (value # rest) i numbers =
     (if value = JNull \<or> value = JUndefined then extract_loop rest (Suc i) numbers
      else (case value of
              JNum r \<Rightarrow> extract_loop rest (Suc i) (numbers @ [r])
            | _ \<Rightarrow> Inl (NonNumericValue i value)))"

definition extractNumbers :: "jsval \<Rightarrow> string option \<Rightarrow> error + real list" where
  "extractNumbers arr key =
     (case arr of
        JArr elems \<Rightarrow>
          if length elems = 0 then Inr []
          else (case mapped_values elems key of
                  Inl e \<Rightarrow> Inl e
                | Inr mapped \<Rightarrow> extract_loop mapped 0 [])
      | _ \<Rightarrow> Inl InvalidInputKind)"

section \<open>Rounding and the aggregate calculators\<close>

text \<open>
  \<open>Math.round\<close> rounds to the nearest integer, a tie towards plus infinity: on the reals
  that is \<open>\<lfloor>x + 1/2\<rfloor>\<close>, which is \<^const>\<open>round\<close>. The product and the quotient are exact
  here. In doubles both round, so the source's value is the double next to this one and
  applying the function twice need not give the same double again; nothing below relies
  on the function being idempotent.
\<close>

definition toFixedNumber :: "real \<Rightarrow> nat \<Rightarrow> real" where
  "toFixedNumber v precision =
     (let factor = (10::real) ^ precision in real_of_int (round (v * factor)) / factor)"

text \<open>\<open>nums.reduce((a, b) => a + b, 0)\<close>\<close>

definition reduce_sum :: "real list \<Rightarrow> real" where
  "reduce_sum nums = foldl (\<lambda>a b. a + b) 0 nums"

definition mean :: "jsval \<Rightarrow> string option \<Rightarrow> error + real" where
  "mean arr key =
     (case extractNumbers arr key of
        Inl e \<Rightarrow> Inl e
      | Inr nums \<Rightarrow>
          if length nums = 0 then Inr 0
          else Inr (toFixedNumber (reduce_sum nums / real (length nums)) 10))"

section \<open>The quickselect engine and the hybrid median\<close>

text \<open>\<open>medianOf\<close> of a sorted array. \<open>median\<close> calls it on a non-empty array only.\<close>

definition medianOf :: "real list \<Rightarrow> real" where
  "medianOf arr =
     (let mid = length arr div 2
      in if length arr mod 2 \<noteq> 0 then arr ! mid else (arr ! (mid - 1) + arr ! mid) / 2)"

text \<open>\<open>[arr[i], arr[j]] = [arr[j], arr[i]]\<close>\<close>

definition swap :: "real list \<Rightarrow> nat \<Rightarrow> nat \<Rightarrow> real list" where
  "swap arr i j = arr[i := arr ! j, j := arr ! i]"

text \<open>
  The inner \<open>for\<close> loop of \<open>quickselect\<close>, from index \<open>i\<close> on: every element below the
  pivot value is swapped to \<open>storeIndex\<close>, which then advances.
\<close>

function partition_loop :: "real list \<Rightarrow> real \<Rightarrow> nat \<Rightarrow> nat \<Rightarrow> nat \<Rightarrow> real list \<times> nat" where
  "partition_loop arr pivotValue right i storeIndex =
     (if i < right then
        (if arr ! i < pivotValue
         then partition_loop (swap arr storeIndex i) pivotValue right (Suc i) (Suc storeIndex)
         else partition_loop arr pivotValue right (Suc i) storeIndex)
      else (arr, storeIndex))"
  by pat_completeness auto
termination
  by (relation "measure (\<lambda>(arr, pivotValue, right, i, storeIndex). right - i)") auto

text \<open>
  \<open>Math.floor(Math.random() * width)\<close> is some index below \<open>width\<close>, and every such index
  can come out. The random engine is a stream of natural numbers; the draw \<open>r\<close> chooses
  the index \<open>r mod width\<close>, so that every stream is a sequence of pivot choices and every
  sequence of pivot choices is given by some stream.
\<close>

definition random_index :: "nat \<Rightarrow> nat \<Rightarrow> nat" where
  "random_index r width = r mod width"

text \<open>
  One pass of the \<open>while\<close> loop up to the final swap: the array after the pass and
  \<open>storeIndex\<close>, the position of the pivot.
\<close>

definition partition_pass :: "real list \<Rightarrow> nat \<Rightarrow> nat \<Rightarrow> nat \<Rightarrow> real list \<times> nat" where
  "partition_pass arr left right r =
     (let pivotIndex = random_index r (right - left + 1) + left;
          pivotValue = arr ! pivotIndex;
          arr1 = swap arr pivotIndex right;
          (arr2, storeIndex) = partition_loop arr1 pivotValue right left left
      in (swap arr2 right storeIndex, storeIndex))"

text \<open>\<open>arr[i]\<close> as a read: \<open>undefined\<close> (\<open>None\<close>) outside the array.\<close>

definition js_nth :: "real list \<Rightarrow> int \<Rightarrow> real option" where
  "js_nth arr i = (if 0 \<le> i \<and> i < int (length arr) then Some (arr ! nat i) else None)"

text \<open>
  The result of \<open>quickselect\<close> records which \<open>return\<close> was taken: \<open>Found\<close> is the
  \<open>return arr[k]\<close> inside the loop, \<open>Fallback\<close> the \<open>return arr[left]\<close> after it. Both
  carry the array as the call leaves it and the rest of the random stream.
  \<open>OutOfBounds\<close> stands for a pass over bounds that do not lie inside the array, where
  the source would read \<open>undefined\<close> and extend the array; the model does not follow it.
\<close>

datatype qs_result =
    Found real "real list" "nat stream"
  | Fallback "real option" "real list" "nat stream"
  | OutOfBounds

function quickselect :: "real list \<Rightarrow> int \<Rightarrow> int \<Rightarrow> int \<Rightarrow> nat stream \<Rightarrow> qs_result" where
  "quickselect arr k left right rng =
     (if left \<le> right then
        (if 0 \<le> left \<and> right < int (length arr) then
           (case partition_pass arr (nat left) (nat right) (shd rng) of
              (arr', storeIndex) \<Rightarrow>
                if k = int storeIndex then Found (arr' ! storeIndex) arr' (stl rng)
                else if k < int storeIndex
                  then quickselect arr' k left (int storeIndex - 1) (stl rng)
                  else quickselect arr' k (int storeIndex + 1) right (stl rng))
         else OutOfBounds)
      else Fallback (js_nth arr left) arr rng)"
  by pat_completeness auto

lemma partition_loop_store:
  "partition_loop arr pv right i s = (arr', s') \<Longrightarrow> s \<le> s' \<and> s' + i \<le> s + max i right"
proof (induction arr pv right i s arbitrary: arr' s' rule: partition_loop.induct)
  case (1 arr pv right i s)
  show ?case
  proof (cases "i < right")
    case False
    with "1.prems" show ?thesis by simp
  next
    case True
    show ?thesis
    proof (cases "arr ! i < pv")
      case True
      with \<open>i < right\<close> "1.prems" "1.IH"(1)[of arr' s'] show ?thesis by simp
    next
      case False
      with \<open>i < right\<close> "1.prems" "1.IH"(2)[of arr' s'] show ?thesis by simp
    qed
  qed
qed

lemma partition_pass_store:
  assumes "partition_pass arr left right r = (arr', s)" and "left \<le> right"
  shows "left \<le> s \<and> s \<le> right"
proof -
  obtain arr2 s2 where
    p: "partition_loop (swap arr (random_index r (right - left + 1) + left) right)
          (arr ! (random_index r (right - left + 1) + left)) right left left = (arr2, s2)"
    by (cases "partition_loop (swap arr (random_index r (right - left + 1) + left) right)
          (arr ! (random_index r (right - left + 1) + left)) right left left")
  from assms(1) p have "s = s2" by (simp add: partition_pass_def Let_def)
  with partition_loop_store[OF p] assms(2) show ?thesis by simp
qed

termination quickselect
  apply (relation "measure (\<lambda>(arr, k, left, right, rng). nat (right - left + 1))")
    apply simp
   apply (auto dest!: partition_pass_store[OF sym])
  done

definition THRESHOLD :: nat where
  "THRESHOLD = 32"

text \<open>
  The value a call of \<open>quickselect\<close> hands to \<open>median\<close>, with the array and the stream it
  leaves; \<open>None\<close> where the model has no number to hand over.
\<close>

fun qs_returned :: "qs_result \<Rightarrow> (real \<times> real list \<times> nat stream) option" where
  "qs_returned (Found v arr rng) = Some (v, arr, rng)"
| "qs_returned (Fallback (Some v) arr rng) = Some (v, arr, rng)"
| "qs_returned (Fallback None arr rng) = None"
| "qs_returned OutOfBounds = None"

text \<open>
  \<open>median\<close>. The defaults of \<open>quickselect\<close> are written out: \<open>left = 0\<close> and
  \<open>right = arr.length - 1\<close>. In the even case both calls work on the same array: the
  second call receives the array the first call left.
\<close>

definition median :: "jsval \<Rightarrow> string option \<Rightarrow> nat stream \<Rightarrow> error + real" where
  "median arr key rng =
     (case extractNumbers arr key of
        Inl e \<Rightarrow> Inl e
      | Inr nums \<Rightarrow>
          if length nums = 0 then Inr 0
          else if length nums < THRESHOLD then Inr (medianOf (sort nums))
          else
            let mid = int (length nums div 2)
            in if length nums mod 2 \<noteq> 0 then
                 (case qs_returned (quickselect nums mid 0 (int (length nums) - 1) rng) of
                    None \<Rightarrow> Inl Unmodelled
                  | Some (m, _, _) \<Rightarrow> Inr m)
               else
                 (case qs_returned (quickselect nums (mid - 1) 0 (int (length nums) - 1) rng) of
                    None \<Rightarrow> Inl Unmodelled
                  | Some (m1, copy, rng1) \<Rightarrow>
                      (case qs_returned (quickselect copy mid mid (int (length copy) - 1) rng1) of
                         None \<Rightarrow> Inl Unmodelled
                       | Some (m2, _, _) \<Rightarrow> Inr (toFixedNumber ((m1 + m2) / 2) 10))))"

section \<open>Mode, range and percentile\<close>

text \<open>
  The frequency \<open>Map\<close> keeps its keys in insertion order, and setting a key that is present
  keeps its place: an association list under \<^const>\<open>AList.update\<close>. One round of the
  counting loop, on the pair of the map and \<open>maxFreq\<close>:
\<close>

definition mode_step :: "(real \<times> nat) list \<times> nat \<Rightarrow> real \<Rightarrow> (real \<times> nat) list \<times> nat" where
  "mode_step st n =
     (let freq = fst st; maxFreq = snd st;
          currentCount = (case map_of freq n of Some c \<Rightarrow> c | None \<Rightarrow> 0) + 1
      in (AList.update n currentCount freq,
          if currentCount > maxFreq then currentCount else maxFreq))"

definition mode :: "jsval \<Rightarrow> string option \<Rightarrow> error + real list" where
  "mode arr key =
     (case extractNumbers arr key of
        Inl e \<Rightarrow> Inl e
      | Inr nums \<Rightarrow>
          if length nums = 0 then Inr []
          else
            let st = foldl mode_step ([], 0) nums;
                res = map fst (filter (\<lambda>(num, count). count = snd st) (fst st))
            in Inr (sort res))"

text \<open>One round of the loop of \<open>range\<close>, on the pair \<open>(min, max)\<close>.\<close>

definition range_step :: "real \<times> real \<Rightarrow> real \<Rightarrow> real \<times> real" where
  "range_step mm x =
     (if x < fst mm then (x, snd mm) else if x > snd mm then (fst mm, x) else mm)"

definition range_of :: "jsval \<Rightarrow> string option \<Rightarrow> error + real" where
  "range_of arr key =
     (case extractNumbers arr key of
        Inl e \<Rightarrow> Inl e
      | Inr nums \<Rightarrow>
          if length nums = 0 then Inr 0
          else
            let mm = foldl range_step (nums ! 0, nums ! 0) (drop 1 nums)
            in Inr (snd mm - fst mm))"

text \<open>
  \<open>Math.min(...nums)\<close> and \<open>Math.max(...nums)\<close>. \<open>percentile\<close> calls them with at least one
  argument; without arguments they are infinite, which the model leaves out.
\<close>

fun Math_min :: "real list \<Rightarrow> real" where
  "Math_min (x # xs) = foldl min x xs"

fun Math_max :: "real list \<Rightarrow> real" where
  "Math_max (x # xs) = foldl max x xs"

text \<open>
  The argument \<open>p\<close> of \<open>percentile\<close> is any number: a finite one, \<open>NaN\<close> or an infinity.
  \<open>p < c\<close> and \<open>p > c\<close> against a finite \<open>c\<close> are as the language has them: every
  comparison with \<open>NaN\<close> is false.
\<close>

datatype number = Finite real | NotANumber | PlusInfinity | MinusInfinity

fun number_lt :: "number \<Rightarrow> real \<Rightarrow> bool" where
  "number_lt (Finite x) c = (x < c)"
| "number_lt NotANumber c = False"
| "number_lt PlusInfinity c = False"
| "number_lt MinusInfinity c = True"

fun number_gt :: "number \<Rightarrow> real \<Rightarrow> bool" where
  "number_gt (Finite x) c = (x > c)"
| "number_gt NotANumber c = False"
| "number_gt PlusInfinity c = True"
| "number_gt MinusInfinity c = False"

text \<open>
  The last part of \<open>percentile\<close>, for a finite \<open>p\<close> on the sorted array: the fractional
  rank, and the element at it or the rounded interpolation of its two neighbours. For
  \<open>0 \<le> p \<le> 100\<close> and a non-empty array both indices lie inside the array (lemma
  \<open>percentile_index_bounds\<close>).
\<close>

definition at_rank :: "real list \<Rightarrow> real \<Rightarrow> real" where
  "at_rank srt p =
     (let index = (p / 100) * real (length srt - 1);
          lowerIndex = \<lfloor>index\<rfloor>;
          upperIndex = \<lceil>index\<rceil>
      in if lowerIndex = upperIndex then srt ! nat lowerIndex
         else
           let lowerValue = srt ! nat lowerIndex;
               upperValue = srt ! nat upperIndex;
               weight = index - real_of_int lowerIndex
           in toFixedNumber (lowerValue * (1 - weight) + upperValue * weight) 10)"

text \<open>
  \<open>percentile\<close>. An infinite \<open>p\<close> fails the range check; \<open>NaN\<close> passes it, since both
  comparisons are false. With \<open>NaN\<close> and a non-empty array, \<open>p === 0\<close> and \<open>p === 100\<close>
  are false, the index, its floor and its ceiling are \<open>NaN\<close>, \<open>NaN === NaN\<close> is false,
  both reads give \<open>undefined\<close>, and the function returns \<open>toFixedNumber\<close> of \<open>NaN\<close>, which
  is \<open>NaN\<close>.
\<close>

definition percentile :: "jsval \<Rightarrow> number \<Rightarrow> string option \<Rightarrow> error + number" where
  "percentile arr p key =
     (if number_lt p 0 \<or> number_gt p 100 then Inl InvalidRange
      else
        (case extractNumbers arr key of
           Inl e \<Rightarrow> Inl e
         | Inr nums \<Rightarrow>
             if length nums = 0 then Inr (Finite 0)
             else
               (case p of
                  Finite q \<Rightarrow>
                    if q = 0 then Inr (Finite (Math_min nums))
                    else if q = 100 then Inr (Finite (Math_max nums))
                    else Inr (Finite (at_rank (sort nums) q))
                | _ \<Rightarrow> Inr NotANumber)))"

section \<open>The arrays of a call, in a store\<close>



fun finite_numbers :: "jsval list \<Rightarrow> real list" where
  "finite_numbers [] = []"
| "finite_numbers (JNum r # vs) = r # finite_numbers vs"
| "finite_numbers (v # vs) = finite_numbers vs"


text \<open>
  To say which array a call writes to, arrays are placed in a store: a list of arrays, an
  array being known by its position (its address). The argument \<open>arr\<close> of a calculator is
  either the address of an array or a value that is not an array. Number arrays hold
  their elements as \<open>JNum\<close> values.

  Each function below is the function of the same name above with its arrays in the
  store: an array literal, \<open>map\<close> and the spread \<open>[...nums]\<close> allocate a new array;
  \<open>push\<close>, \<open>sort\<close> and the swaps of \<open>quickselect\<close> write to the array they are called
  on. They return the store they leave and the result.
\<close>

type_synonym store = "jsval list list"

datatype input = ArrayAt nat | Other jsval

definition new_array :: "store \<Rightarrow> jsval list \<Rightarrow> store \<times> nat" where
  "new_array st elems = (st @ [elems], length st)"

definition numbers_at :: "store \<Rightarrow> nat \<Rightarrow> real list" where
  "numbers_at st a = finite_numbers (st ! a)"

text \<open>
  \<open>a.sort((a, b) => a - b)\<close> sorts the array at \<open>a\<close> where it is. The calculators call
  it on number arrays only.
\<close>

definition sort_in_place :: "store \<Rightarrow> nat \<Rightarrow> store" where
  "sort_in_place st a = st[a := map JNum (sort (numbers_at st a))]"

text \<open>
  The validation loop over the values of \<open>mapped\<close>; each \<open>numbers.push(value)\<close> is a
  write to the array at \<open>numbers\<close>.
\<close>

fun push_loop :: "store \<Rightarrow> nat \<Rightarrow> jsval list \<Rightarrow> nat \<Rightarrow> store \<times> (error + unit)" where
  "push_loop st numbers [] i = (st, Inr ())"
| "push_loop st numbers (value # rest) i =
     (if value = JNull \<or> value = JUndefined then push_loop st numbers rest (Suc i)
      else (case value of
              JNum r \<Rightarrow> push_loop (st[numbers := st ! numbers @ [JNum r]]) numbers rest (Suc i)
            | _ \<Rightarrow> (st, Inl (NonNumericValue i value))))"

text \<open>
  Without a key \<open>mapped\<close> is the array \<open>arr\<close> itself, with a key it is a new array;
  \<open>numbers\<close> is a new array in both cases, and it is what the function returns.
\<close>

definition extractNumbers_st :: "store \<Rightarrow> input \<Rightarrow> string option \<Rightarrow> store \<times> (error + nat)" where
  "extractNumbers_st st arr key =
     (case arr of
        Other v \<Rightarrow> (st, Inl InvalidInputKind)
      | ArrayAt a \<Rightarrow>
          if length (st ! a) = 0 then (case new_array st [] of (st1, fresh) \<Rightarrow> (st1, Inr fresh))
          else
            (case (if truthy_key key
                   then (case map_prop (st ! a) (the key) of
                           Inl e \<Rightarrow> Inl e
                         | Inr vs \<Rightarrow> Inr (new_array st vs))
                   else Inr (st, a)) of
               Inl e \<Rightarrow> (st, Inl e)
             | Inr (st1, mapped) \<Rightarrow>
                 (case new_array st1 [] of
                    (st2, numbers) \<Rightarrow>
                      (case push_loop st2 numbers (st2 ! mapped) 0 of
                         (st3, Inl e) \<Rightarrow> (st3, Inl e)
                       | (st3, Inr u) \<Rightarrow> (st3, Inr numbers)))))"

definition mean_st :: "store \<Rightarrow> input \<Rightarrow> string option \<Rightarrow> store \<times> (error + real)" where
  "mean_st st arr key =
     (case extractNumbers_st st arr key of
        (st1, Inl e) \<Rightarrow> (st1, Inl e)
      | (st1, Inr nums) \<Rightarrow>
          let ns = numbers_at st1 nums
          in if length ns = 0 then (st1, Inr 0)
             else (st1, Inr (toFixedNumber (reduce_sum ns / real (length ns)) 10)))"

text \<open>All swaps of \<open>quickselect\<close> are on its argument \<open>arr\<close>, the array at \<open>a\<close>.\<close>

definition quickselect_st ::
  "store \<Rightarrow> nat \<Rightarrow> int \<Rightarrow> int \<Rightarrow> int \<Rightarrow> nat stream \<Rightarrow> store \<times> (real \<times> nat stream) option" where
  "quickselect_st st a k left right rng =
     (case quickselect (numbers_at st a) k left right rng of
        Found v arr' rng' \<Rightarrow> (st[a := map JNum arr'], Some (v, rng'))
      | Fallback (Some v) arr' rng' \<Rightarrow> (st[a := map JNum arr'], Some (v, rng'))
      | Fallback None arr' rng' \<Rightarrow> (st[a := map JNum arr'], None)
      | OutOfBounds \<Rightarrow> (st, None))"

definition median_st ::
  "store \<Rightarrow> input \<Rightarrow> string option \<Rightarrow> nat stream \<Rightarrow> store \<times> (error + real)" where
  "median_st st arr key rng =
     (case extractNumbers_st st arr key of
        (st1, Inl e) \<Rightarrow> (st1, Inl e)
      | (st1, Inr nums) \<Rightarrow>
          let n = length (st1 ! nums)
          in if n = 0 then (st1, Inr 0)
             else if n < THRESHOLD then
               (case new_array st1 (st1 ! nums) of
                  (st2, srt) \<Rightarrow>
                    let st3 = sort_in_place st2 srt
                    in (st3, Inr (medianOf (numbers_at st3 srt))))
             else
               let mid = int (n div 2)
               in if n mod 2 \<noteq> 0 then
                    (case new_array st1 (st1 ! nums) of
                       (st2, copy) \<Rightarrow>
                         (case quickselect_st st2 copy mid 0 (int (length (st2 ! copy)) - 1) rng of
                            (st3, None) \<Rightarrow> (st3, Inl Unmodelled)
                          | (st3, Some (m, rng1)) \<Rightarrow> (st3, Inr m)))
                  else
                    (case new_array st1 (st1 ! nums) of
                       (st2, copy) \<Rightarrow>
                         (case quickselect_st st2 copy (mid - 1) 0
                                 (int (length (st2 ! copy)) - 1) rng of
                            (st3, None) \<Rightarrow> (st3, Inl Unmodelled)
                          | (st3, Some (m1, rng1)) \<Rightarrow>
                              (case quickselect_st st3 copy mid mid
                                      (int (length (st3 ! copy)) - 1) rng1 of
                                 (st4, None) \<Rightarrow> (st4, Inl Unmodelled)
                               | (st4, Some (m2, rng2)) \<Rightarrow>
                                   (st4, Inr (toFixedNumber ((m1 + m2) / 2) 10))))))"

text \<open>\<open>mode\<close> returns an array: \<open>res\<close>, or a new empty array.\<close>

definition mode_st :: "store \<Rightarrow> input \<Rightarrow> string option \<Rightarrow> store \<times> (error + nat)" where
  "mode_st st arr key =
     (case extractNumbers_st st arr key of
        (st1, Inl e) \<Rightarrow> (st1, Inl e)
      | (st1, Inr nums) \<Rightarrow>
          let ns = numbers_at st1 nums
          in if length ns = 0 then (case new_array st1 [] of (st2, fresh) \<Rightarrow> (st2, Inr fresh))
             else
               let fm = foldl mode_step ([], 0) ns
               in (case new_array st1 [] of
                     (st2, res) \<Rightarrow>
                       let st3 = st2[res := st2 ! res
                                    @ map JNum (map fst (filter (\<lambda>(num, count). count = snd fm) (fst fm)))]
                       in (sort_in_place st3 res, Inr res)))"

definition range_st :: "store \<Rightarrow> input \<Rightarrow> string option \<Rightarrow> store \<times> (error + real)" where
  "range_st st arr key =
     (case extractNumbers_st st arr key of
        (st1, Inl e) \<Rightarrow> (st1, Inl e)
      | (st1, Inr nums) \<Rightarrow>
          let ns = numbers_at st1 nums
          in if length ns = 0 then (st1, Inr 0)
             else
               let mm = foldl range_step (ns ! 0, ns ! 0) (drop 1 ns)
               in (st1, Inr (snd mm - fst mm)))"

definition percentile_st ::
  "store \<Rightarrow> input \<Rightarrow> number \<Rightarrow> string option \<Rightarrow> store \<times> (error + number)" where
  "percentile_st st arr p key =
     (if number_lt p 0 \<or> number_gt p 100 then (st, Inl InvalidRange)
      else
        (case extractNumbers_st st arr key of
           (st1, Inl e) \<Rightarrow> (st1, Inl e)
         | (st1, Inr nums) \<Rightarrow>
             let ns = numbers_at st1 nums
             in if length ns = 0 then (st1, Inr (Finite 0))
                else
                  (case p of
                     Finite q \<Rightarrow>
                       if q = 0 then (st1, Inr (Finite (Math_min ns)))
                       else if q = 100 then (st1, Inr (Finite (Math_max ns)))
                       else
                         (case new_array st1 (st1 ! nums) of
                            (st2, srt_at) \<Rightarrow>
                              let st3 = sort_in_place st2 srt_at
                              in (st3, Inr (Finite (at_rank (numbers_at st3 srt_at) q))))
                   | _ \<Rightarrow>
                       (case new_array st1 (st1 ! nums) of
                          (st2, srt_at) \<Rightarrow> (sort_in_place st2 srt_at, Inr NotANumber)))))"

section \<open>Variance and standard deviation\<close>

text \<open>
  The options of \<open>variance\<close> and \<open>stdev\<close>: both fields may be absent, and an absent
  \<open>isSample\<close> defaults to \<open>true\<close>.
\<close>

record VarianceOptions =
  key :: "string option"
  isSample :: "bool option"

definition sample_flag :: "VarianceOptions \<Rightarrow> bool" where
  "sample_flag options = (case isSample options of None \<Rightarrow> True | Some b \<Rightarrow> b)"

text \<open>
  \<open>nums.reduce((sum, num) => sum + Math.pow(num - meanValue, 2), 0)\<close>
\<close>

definition sum_of_squares :: "real list \<Rightarrow> real \<Rightarrow> real" where
  "sum_of_squares nums meanValue = foldl (\<lambda>sum num. sum + (num - meanValue) ^ 2) 0 nums"

definition variance :: "jsval \<Rightarrow> VarianceOptions \<Rightarrow> error + real" where
  "variance arr options =
     (case extractNumbers arr (key options) of
        Inl e \<Rightarrow> Inl e
      | Inr nums \<Rightarrow>
          if length nums = 0 then Inr 0
          else
            let divisor = (if sample_flag options then int (length nums) - 1
                           else int (length nums))
            in if divisor \<le> 0 then Inl InsufficientData
               else
                 let meanValue = reduce_sum nums / real (length nums);
                     sumOfSquares = sum_of_squares nums meanValue
                 in Inr (toFixedNumber (sumOfSquares / real_of_int divisor) 10))"

definition stdev :: "jsval \<Rightarrow> VarianceOptions \<Rightarrow> error + real" where
  "stdev arr options =
     (case extractNumbers arr (key options) of
        Inl e \<Rightarrow> Inl e
      | Inr nums \<Rightarrow>
          if length nums = 0 then Inr 0
          else
            let divisor = (if sample_flag options then int (length nums) - 1
                           else int (length nums))
            in if divisor \<le> 0 then Inl InsufficientData
               else
                 let meanValue = reduce_sum nums / real (length nums);
                     sumOfSquares = sum_of_squares nums meanValue;
                     varianceValue = toFixedNumber (sumOfSquares / real_of_int divisor) 10
                 in Inr (toFixedNumber (sqrt varianceValue) 10))"

definition variance_st :: "store \<Rightarrow> input \<Rightarrow> VarianceOptions \<Rightarrow> store \<times> (error + real)" where
  "variance_st st arr options =
     (case extractNumbers_st st arr (key options) of
        (st1, Inl e) \<Rightarrow> (st1, Inl e)
      | (st1, Inr nums) \<Rightarrow>
          let ns = numbers_at st1 nums
          in if length ns = 0 then (st1, Inr 0)
             else
               let divisor = (if sample_flag options then int (length ns) - 1
                              else int (length ns))
               in if divisor \<le> 0 then (st1, Inl InsufficientData)
                  else
                    let meanValue = reduce_sum ns / real (length ns);
                        sumOfSquares = sum_of_squares ns meanValue
                    in (st1, Inr (toFixedNumber (sumOfSquares / real_of_int divisor) 10)))"

definition stdev_st :: "store \<Rightarrow> input \<Rightarrow> VarianceOptions \<Rightarrow> store \<times> (error + real)" where
  "stdev_st st arr options =
     (case extractNumbers_st st arr (key options) of
        (st1, Inl e) \<Rightarrow> (st1, Inl e)
      | (st1, Inr nums) \<Rightarrow>
          let ns = numbers_at st1 nums
          in if length ns = 0 then (st1, Inr 0)
             else
               let divisor = (if sample_flag options then int (length ns) - 1
                              else int (length ns))
               in if divisor \<le> 0 then (st1, Inl InsufficientData)
                  else
                    let meanValue = reduce_sum ns / real (length ns);
                        sumOfSquares = sum_of_squares ns meanValue;
                        varianceValue = toFixedNumber (sumOfSquares / real_of_int divisor) 10
                    in (st1, Inr (toFixedNumber (sqrt varianceValue) 10)))"


section \<open>Notions used to state the properties\<close>

text \<open>
  The median as the benchmark of the repository computes it (\<open>sortBasedMedian\<close> in
  \<open>benchmarks/median.bench.ts\<close>): sort everything, take the middle.
\<close>

definition sortBasedMedian :: "real list \<Rightarrow> real" where
  "sortBasedMedian arr =
     (if length arr = 0 then 0
      else
        let srt = sort arr; mid = length srt div 2
        in if length srt mod 2 \<noteq> 0 then srt ! mid else (srt ! (mid - 1) + srt ! mid) / 2)"

text \<open>
  The state of the counting loop of \<open>mode\<close> after the elements \<open>xs\<close>: the map has one
  entry for each value seen, with its number of occurrences, and \<open>maxFreq\<close> is the
  largest of them.
\<close>

definition mode_inv :: "(real \<times> nat) list \<times> nat \<Rightarrow> real list \<Rightarrow> bool" where
  "mode_inv st xs \<longleftrightarrow>
     distinct (map fst (fst st))
     \<and> (\<forall>v. map_of (fst st) v = (if v \<in> set xs then Some (count_list xs v) else None))
     \<and> (\<forall>v. count_list xs v \<le> snd st)
     \<and> (if xs = [] then snd st = 0 else (\<exists>v\<in>set xs. count_list xs v = snd st))"


text \<open>Everything before position \<open>p\<close> is at most everything from \<open>p\<close> on.\<close>

definition sep :: "real list \<Rightarrow> nat \<Rightarrow> bool" where
  "sep arr p \<longleftrightarrow> (\<forall>i j. i < p \<and> p \<le> j \<and> j < length arr \<longrightarrow> arr ! i \<le> arr ! j)"


text \<open>
  \<open>preserves st st'\<close>: every array of the store \<open>st\<close> is in \<open>st'\<close> at the same address
  with the same elements. An argument is valid in a store when it is not a dangling
  address.
\<close>

definition preserves :: "store \<Rightarrow> store \<Rightarrow> bool" where
  "preserves st st' \<longleftrightarrow> length st \<le> length st' \<and> (\<forall>b<length st. st' ! b = st ! b)"

fun valid_input :: "store \<Rightarrow> input \<Rightarrow> bool" where
  "valid_input st (ArrayAt a) = (a < length st)"
| "valid_input st (Other v) = True"

section \<open>Lemmas\<close>

subsection \<open>Rounding, errors of the extractor, minimum and maximum\<close>

lemma map_prop_not_insufficient: "map_prop xs k \<noteq> Inl InsufficientData \<and> map_prop xs k \<noteq> Inl InvalidRange"
proof (induction xs)
  case Nil show ?case by simp
next
  case (Cons x xs)
  have "get_prop x k \<noteq> Inl InsufficientData \<and> get_prop x k \<noteq> Inl InvalidRange"
    by (cases x) (auto split: option.splits)
  with Cons show ?case by (auto split: sum.splits)
qed

lemma extract_loop_not_insufficient:
  "extract_loop vs i acc \<noteq> Inl InsufficientData \<and> extract_loop vs i acc \<noteq> Inl InvalidRange"
  by (induction vs i acc rule: extract_loop.induct) (auto split: jsval.splits)

lemma extractNumbers_not_insufficient:
  "extractNumbers arr k \<noteq> Inl InsufficientData \<and> extractNumbers arr k \<noteq> Inl InvalidRange"
  using map_prop_not_insufficient extract_loop_not_insufficient
  by (auto simp: extractNumbers_def mapped_values_def split: jsval.splits sum.splits)

lemma variance_insufficient_iff:
  "variance arr options = Inl InsufficientData \<longleftrightarrow>
     (\<exists>nums. extractNumbers arr (key options) = Inr nums \<and> length nums = 1 \<and> sample_flag options)"
  using extractNumbers_not_insufficient[of arr "key options"]
  by (cases "extractNumbers arr (key options)")
     (auto simp: variance_def Let_def le_Suc_eq)

lemma stdev_insufficient_iff:
  "stdev arr options = Inl InsufficientData \<longleftrightarrow>
     (\<exists>nums. extractNumbers arr (key options) = Inr nums \<and> length nums = 1 \<and> sample_flag options)"
  using extractNumbers_not_insufficient[of arr "key options"]
  by (cases "extractNumbers arr (key options)")
     (auto simp: stdev_def Let_def le_Suc_eq)

lemma percentile_validates_first:
  "number_lt p 0 \<or> number_gt p 100 \<Longrightarrow> percentile arr p k = Inl InvalidRange"
  by (auto simp: percentile_def)

lemma percentile_infinite:
  "percentile arr PlusInfinity k = Inl InvalidRange"
  "percentile arr MinusInfinity k = Inl InvalidRange"
  by (simp_all add: percentile_def)

lemma Math_min_Min: "nums \<noteq> [] \<Longrightarrow> Math_min nums = Min (set nums)"
proof (cases nums)
  case Nil then show "nums \<noteq> [] \<Longrightarrow> ?thesis" by simp
next
  case (Cons x xs)
  have "foldl min x xs = fold min xs x"
    by (simp add: foldl_conv_fold min.commute)
  then show ?thesis using Cons Min.set_eq_fold[of x xs] by simp
qed

lemma Math_max_Max: "nums \<noteq> [] \<Longrightarrow> Math_max nums = Max (set nums)"
proof (cases nums)
  case Nil then show "nums \<noteq> [] \<Longrightarrow> ?thesis" by simp
next
  case (Cons x xs)
  have "foldl max x xs = fold max xs x"
    by (simp add: foldl_conv_fold max.commute)
  then show ?thesis using Cons Max.set_eq_fold[of x xs] by simp
qed

subsection \<open>The validation loop\<close>




lemma extractNumbers_mapped:
  "mapped_values elems k = Inr mapped \<Longrightarrow>
   extractNumbers (JArr elems) k = extract_loop mapped 0 []"
  by (cases elems) (auto simp: extractNumbers_def mapped_values_def split: if_splits)



subsection \<open>The counting loop of mode\<close>

lemma count_list_zero: "v \<notin> set xs \<Longrightarrow> count_list xs v = 0"
  by (induction xs) auto

lemma mode_inv_step:
  assumes "mode_inv st xs"
  shows "mode_inv (mode_step st x) (xs @ [x])"
proof -
  obtain freq m where st: "st = (freq, m)" by (cases st)
  from assms st have d: "distinct (map fst freq)"
    and mp: "\<And>v. map_of freq v = (if v \<in> set xs then Some (count_list xs v) else None)"
    and le: "\<And>v. count_list xs v \<le> m"
    and ex: "if xs = [] then m = 0 else (\<exists>v\<in>set xs. count_list xs v = m)"
    by (auto simp: mode_inv_def split: if_splits)
  define cc where "cc = (case map_of freq x of Some c \<Rightarrow> c | None \<Rightarrow> 0) + 1"
  have cc: "cc = count_list xs x + 1"
    by (simp add: cc_def mp count_list_zero)
  have step: "mode_step st x = (AList.update x cc freq, if cc > m then cc else m)"
    by (simp add: mode_step_def st cc_def Let_def)
  have 1: "distinct (map fst (AList.update x cc freq))"
    using d by (rule distinct_update)
  have 2: "map_of (AList.update x cc freq) v
             = (if v \<in> set (xs @ [x]) then Some (count_list (xs @ [x]) v) else None)" for v
    by (simp add: update_conv' mp cc)
  have 3: "count_list (xs @ [x]) v \<le> (if cc > m then cc else m)" for v
    using le[of v] cc by auto
  have 4: "\<exists>v\<in>set (xs @ [x]). count_list (xs @ [x]) v = (if cc > m then cc else m)"
  proof (cases "cc > m")
    case True
    then show ?thesis using cc by auto
  next
    case False
    with cc have xm: "count_list xs x < m" by simp
    then have "xs \<noteq> []" using ex by auto
    with ex obtain v where v: "v \<in> set xs" "count_list xs v = m" by auto
    with xm have "v \<noteq> x" by auto
    with v False show ?thesis by auto
  qed
  show ?thesis
    unfolding step mode_inv_def using 1 2 3 4 by simp
qed

lemma mode_inv_foldl: "mode_inv (foldl mode_step ([], 0) xs) xs"
proof (induction xs rule: rev_induct)
  case Nil
  show ?case by (simp add: mode_inv_def)
next
  case (snoc x xs)
  then show ?case by (simp add: mode_inv_step)
qed

lemma set_keys_with_count:
  assumes "distinct (map fst al)"
  shows "set (map fst (filter (\<lambda>(num, count). count = m) al)) = {v. map_of al v = Some m}"
  using assms by (auto simp: image_iff)



subsection \<open>Partitioning and selection\<close>

lemma length_swap [simp]: "length (swap arr i j) = length arr"
  by (simp add: swap_def)

lemma mset_swap_elems: "i < length arr \<Longrightarrow> j < length arr \<Longrightarrow> mset (swap arr i j) = mset arr"
  unfolding swap_def by (rule mset_swap)

lemma nth_swap:
  "i < length arr \<Longrightarrow> j < length arr \<Longrightarrow>
   swap arr i j ! m = (if m = j then arr ! i else if m = i then arr ! j else arr ! m)"
  by (simp add: swap_def nth_list_update)

lemmas partition_loop_simps = partition_loop.simps
declare partition_loop.simps [simp del]

lemma partition_loop_spec:
  assumes "partition_loop arr pv right i s = (arr', s')"
    and "s \<le> i" and "i \<le> right" and "right < length arr"
    and "\<forall>j. s \<le> j \<and> j < i \<longrightarrow> \<not> arr ! j < pv"
  shows "length arr' = length arr \<and> mset arr' = mset arr \<and> s \<le> s' \<and> s' \<le> right
       \<and> (\<forall>j. j < s \<or> right \<le> j \<longrightarrow> arr' ! j = arr ! j)
       \<and> (\<forall>j. s \<le> j \<and> j < s' \<longrightarrow> arr' ! j < pv)
       \<and> (\<forall>j. s' \<le> j \<and> j < right \<longrightarrow> \<not> arr' ! j < pv)
       \<and> (\<forall>j. s \<le> j \<and> j < right \<longrightarrow> (\<exists>j'. s \<le> j' \<and> j' < right \<and> arr' ! j = arr ! j'))"
  using assms
proof (induction arr pv right i s arbitrary: arr' s' rule: partition_loop.induct)
  case (1 arr pv right i s)
  show ?case
  proof (cases "i < right")
    case False
    with "1.prems" have "i = right" "arr' = arr" "s' = s"
      by (simp_all add: partition_loop_simps[of arr pv right i s])
    with "1.prems" show ?thesis by auto
  next
    case True
    note ir = True
    show ?thesis
    proof (cases "arr ! i < pv")
      case True
      define arr1 where "arr1 = swap arr s i"
      have si: "s < length arr" "i < length arr" using "1.prems" ir by auto
      have rec: "partition_loop arr1 pv right (Suc i) (Suc s) = (arr', s')"
        using "1.prems"(1) ir True by (simp add: partition_loop_simps[of arr pv right i s] arr1_def)
      have n1: "arr1 ! m = (if m = i then arr ! s else if m = s then arr ! i else arr ! m)" for m
        unfolding arr1_def using nth_swap[OF si] by simp
      have pre: "\<forall>j. Suc s \<le> j \<and> j < Suc i \<longrightarrow> \<not> arr1 ! j < pv"
        using "1.prems"(2,5) by (auto simp: n1)
      have ih: "length arr' = length arr1 \<and> mset arr' = mset arr1 \<and> Suc s \<le> s' \<and> s' \<le> right
         \<and> (\<forall>j. j < Suc s \<or> right \<le> j \<longrightarrow> arr' ! j = arr1 ! j)
         \<and> (\<forall>j. Suc s \<le> j \<and> j < s' \<longrightarrow> arr' ! j < pv)
         \<and> (\<forall>j. s' \<le> j \<and> j < right \<longrightarrow> \<not> arr' ! j < pv)
         \<and> (\<forall>j. Suc s \<le> j \<and> j < right \<longrightarrow> (\<exists>j'. Suc s \<le> j' \<and> j' < right \<and> arr' ! j = arr1 ! j'))"
        using "1.IH"(1)[OF ir True, folded arr1_def, OF rec] "1.prems"(2,4) ir pre
        by (simp add: arr1_def)
      have a: "length arr' = length arr" using ih by (simp add: arr1_def)
      have b: "mset arr' = mset arr" using ih mset_swap_elems[OF si] by (simp add: arr1_def)
      have c: "s \<le> s' \<and> s' \<le> right" using ih by simp
      have d: "\<forall>j. j < s \<or> right \<le> j \<longrightarrow> arr' ! j = arr ! j"
        using ih ir "1.prems"(2) by (auto simp: n1)
      have e: "\<forall>j. s \<le> j \<and> j < s' \<longrightarrow> arr' ! j < pv"
      proof (intro allI impI)
        fix j assume j: "s \<le> j \<and> j < s'"
        show "arr' ! j < pv"
        proof (cases "j = s")
          case True
          then have "arr' ! j = arr1 ! s" using ih by simp
          also have "\<dots> = arr ! i" by (simp add: n1)
          finally show ?thesis using \<open>arr ! i < pv\<close> by simp
        next
          case False
          with j ih show ?thesis by simp
        qed
      qed
      have f: "\<forall>j. s' \<le> j \<and> j < right \<longrightarrow> \<not> arr' ! j < pv" using ih by simp
      have g: "\<forall>j. s \<le> j \<and> j < right \<longrightarrow> (\<exists>j'. s \<le> j' \<and> j' < right \<and> arr' ! j = arr ! j')"
      proof (intro allI impI)
        fix j assume j: "s \<le> j \<and> j < right"
        have "\<exists>m. s \<le> m \<and> m < right \<and> arr' ! j = arr1 ! m"
        proof (cases "j = s")
          case True
          then have "arr' ! j = arr1 ! s" using ih by simp
          with j True show ?thesis by blast
        next
          case False
          with j ih obtain m where "Suc s \<le> m \<and> m < right \<and> arr' ! j = arr1 ! m"
            by (metis Suc_leI le_neq_implies_less)
          then show ?thesis by (metis Suc_leD)
        qed
        then obtain m where m: "s \<le> m" "m < right" "arr' ! j = arr1 ! m" by blast
        show "\<exists>j'. s \<le> j' \<and> j' < right \<and> arr' ! j = arr ! j'"
        proof (cases "m = i")
          case True
          with m n1[of m] have "arr' ! j = arr ! s" by simp
          with ir "1.prems"(2) show ?thesis by (metis le_less_trans order_refl)
        next
          case False
          note mi = False
          show ?thesis
          proof (cases "m = s")
            case True
            with m n1[of m] mi have "arr' ! j = arr ! i" by simp
            with ir "1.prems"(2) show ?thesis by blast
          next
            case False
            with mi m n1[of m] show ?thesis by auto
          qed
        qed
      qed
      from a b c d e f g show ?thesis by blast
    next
      case False
      have rec: "partition_loop arr pv right (Suc i) s = (arr', s')"
        using "1.prems"(1) ir False by (simp add: partition_loop_simps[of arr pv right i s])
      have pre: "\<forall>j. s \<le> j \<and> j < Suc i \<longrightarrow> \<not> arr ! j < pv"
        using "1.prems"(5) False by (auto simp: less_Suc_eq)
      show ?thesis
        using "1.IH"(2)[OF ir False rec] "1.prems"(2,4) ir pre by simp
    qed
  qed
qed


lemma random_index_less: "random_index r (Suc w) < Suc w"
  by (simp add: random_index_def)

lemma partition_pass_spec:
  assumes pp: "partition_pass arr l r rnd = (arr', s)" and lr: "l \<le> r" and rn: "r < length arr"
  shows "length arr' = length arr \<and> mset arr' = mset arr \<and> l \<le> s \<and> s \<le> r
       \<and> (\<forall>j. j < l \<or> r < j \<longrightarrow> arr' ! j = arr ! j)
       \<and> (\<forall>j. l \<le> j \<and> j < s \<longrightarrow> arr' ! j < arr' ! s)
       \<and> (\<forall>j. s < j \<and> j \<le> r \<longrightarrow> arr' ! s \<le> arr' ! j)
       \<and> (\<forall>j. l \<le> j \<and> j \<le> r \<longrightarrow> (\<exists>j'. l \<le> j' \<and> j' \<le> r \<and> arr' ! j = arr ! j'))"
proof -
  define p where "p = random_index rnd (r - l + 1) + l"
  define pv where "pv = arr ! p"
  define arr1 where "arr1 = swap arr p r"
  obtain arr2 s2 where loop: "partition_loop arr1 pv r l l = (arr2, s2)"
    by (cases "partition_loop arr1 pv r l l")
  from pp loop have res: "arr' = swap arr2 r s" "s2 = s"
    by (auto simp: partition_pass_def Let_def p_def pv_def arr1_def)
  have pl: "l \<le> p" and pr: "p \<le> r"
    using random_index_less[of rnd "r - l"] lr by (simp_all add: p_def)
  have pn: "p < length arr" using pr rn by simp
  have n1: "arr1 ! m = (if m = r then arr ! p else if m = p then arr ! r else arr ! m)" for m
    unfolding arr1_def using nth_swap[OF pn rn] by simp
  have len1: "length arr1 = length arr" by (simp add: arr1_def)
  have ms1: "mset arr1 = mset arr" unfolding arr1_def using mset_swap_elems[OF pn rn] .
  have spec: "length arr2 = length arr1 \<and> mset arr2 = mset arr1 \<and> l \<le> s \<and> s \<le> r
       \<and> (\<forall>j. j < l \<or> r \<le> j \<longrightarrow> arr2 ! j = arr1 ! j)
       \<and> (\<forall>j. l \<le> j \<and> j < s \<longrightarrow> arr2 ! j < pv)
       \<and> (\<forall>j. s \<le> j \<and> j < r \<longrightarrow> \<not> arr2 ! j < pv)
       \<and> (\<forall>j. l \<le> j \<and> j < r \<longrightarrow> (\<exists>j'. l \<le> j' \<and> j' < r \<and> arr2 ! j = arr1 ! j'))"
    using partition_loop_spec[OF loop[unfolded res(2)]] lr rn len1 by simp
  have len2: "length arr2 = length arr" using spec len1 by simp
  have sn: "s < length arr2" "r < length arr2" using spec rn len2 by simp_all
  have n3: "arr' ! m = (if m = s then arr2 ! r else if m = r then arr2 ! s else arr2 ! m)" for m
    unfolding res(1) using nth_swap[OF sn(2) sn(1)] by simp
  have r2: "arr2 ! r = pv" using spec n1[of r] by (simp add: pv_def)
  have a: "length arr' = length arr" using len2 by (simp add: res(1))
  have b: "mset arr' = mset arr"
    unfolding res(1) using mset_swap_elems[OF sn(2) sn(1)] spec ms1 by simp
  have c: "l \<le> s \<and> s \<le> r" using spec by simp
  have d: "\<forall>j. j < l \<or> r < j \<longrightarrow> arr' ! j = arr ! j"
    using spec pl pr by (auto simp: n3 n1)
  have e: "\<forall>j. l \<le> j \<and> j < s \<longrightarrow> arr' ! j < arr' ! s"
    using spec r2 by (auto simp: n3)
  have f: "\<forall>j. s < j \<and> j \<le> r \<longrightarrow> arr' ! s \<le> arr' ! j"
  proof (intro allI impI)
    fix j assume j: "s < j \<and> j \<le> r"
    have "\<not> arr' ! j < pv"
    proof (cases "j = r")
      case True
      with j have "arr' ! j = arr2 ! s" "s < r" by (simp_all add: n3)
      with spec show ?thesis by simp
    next
      case False
      with j have "arr' ! j = arr2 ! j" "s \<le> j" "j < r" by (simp_all add: n3)
      with spec show ?thesis by simp
    qed
    moreover have "arr' ! s = pv" using r2 by (simp add: n3)
    ultimately show "arr' ! s \<le> arr' ! j" by simp
  qed
  have in1: "\<exists>j'. l \<le> j' \<and> j' \<le> r \<and> arr1 ! m = arr ! j'" if "l \<le> m" "m \<le> r" for m
  proof (cases "m = r")
    case True
    then have "arr1 ! m = arr ! p" by (simp add: n1)
    with pl pr show ?thesis by blast
  next
    case False
    note mr = False
    show ?thesis
    proof (cases "m = p")
      case True
      with mr have "arr1 ! m = arr ! r" by (simp add: n1)
      with lr show ?thesis by blast
    next
      case False
      with mr have "arr1 ! m = arr ! m" by (simp add: n1)
      with that show ?thesis by blast
    qed
  qed
  have in2: "\<exists>j'. l \<le> j' \<and> j' \<le> r \<and> arr2 ! m = arr ! j'" if "l \<le> m" "m \<le> r" for m
  proof (cases "m = r")
    case True
    then have "arr2 ! m = arr1 ! r" using spec by simp
    with in1[of r] lr show ?thesis by simp
  next
    case False
    with that spec obtain m' where "l \<le> m'" "m' < r" "arr2 ! m = arr1 ! m'"
      by (metis le_neq_implies_less)
    with in1[of m'] show ?thesis by simp
  qed
  have g: "\<forall>j. l \<le> j \<and> j \<le> r \<longrightarrow> (\<exists>j'. l \<le> j' \<and> j' \<le> r \<and> arr' ! j = arr ! j')"
  proof (intro allI impI)
    fix j assume j: "l \<le> j \<and> j \<le> r"
    have "\<exists>m. l \<le> m \<and> m \<le> r \<and> arr' ! j = arr2 ! m"
    proof (cases "j = s")
      case True
      then have "arr' ! j = arr2 ! r" by (simp add: n3)
      with lr show ?thesis by blast
    next
      case False
      note js = False
      show ?thesis
      proof (cases "j = r")
        case True
        with js have "arr' ! j = arr2 ! s" by (simp add: n3)
        with c show ?thesis by blast
      next
        case False
        with js have "arr' ! j = arr2 ! j" by (simp add: n3)
        with j show ?thesis by blast
      qed
    qed
    then obtain m where "l \<le> m" "m \<le> r" "arr' ! j = arr2 ! m" by blast
    with in2[of m] show "\<exists>j'. l \<le> j' \<and> j' \<le> r \<and> arr' ! j = arr ! j'" by simp
  qed
  from a b c d e f g show ?thesis by blast
qed

lemma partition_pass_sep:
  assumes pp: "partition_pass arr l r rnd = (arr', s)" and lr: "l \<le> r" and rn: "r < length arr"
    and sl: "sep arr l" and sr: "sep arr (Suc r)"
  shows "sep arr' l \<and> sep arr' (Suc r) \<and> sep arr' s \<and> sep arr' (Suc s)"
proof -
  note spec = partition_pass_spec[OF pp lr rn]
  from spec have len: "length arr' = length arr" and ls: "l \<le> s" and sr': "s \<le> r"
    and out: "\<And>j. j < l \<or> r < j \<Longrightarrow> arr' ! j = arr ! j"
    and lo: "\<And>j. l \<le> j \<Longrightarrow> j < s \<Longrightarrow> arr' ! j < arr' ! s"
    and hi: "\<And>j. s < j \<Longrightarrow> j \<le> r \<Longrightarrow> arr' ! s \<le> arr' ! j"
    and img: "\<And>j. l \<le> j \<Longrightarrow> j \<le> r \<Longrightarrow> \<exists>j'. l \<le> j' \<and> j' \<le> r \<and> arr' ! j = arr ! j'"
    by blast+
  have 1: "arr' ! i \<le> arr' ! j" if "i < l" "l \<le> j" "j < length arr" for i j
  proof (cases "j \<le> r")
    case True
    with img[of j] that obtain j' where "l \<le> j'" "j' \<le> r" "arr' ! j = arr ! j'" by blast
    with sl that rn out[of i] show ?thesis by (simp add: sep_def)
  next
    case False
    with sl that out[of i] out[of j] show ?thesis by (simp add: sep_def)
  qed
  have 2: "arr' ! i \<le> arr' ! j" if "i \<le> r" "r < j" "j < length arr" for i j
  proof (cases "l \<le> i")
    case True
    with img[of i] that obtain i' where "l \<le> i'" "i' \<le> r" "arr' ! i = arr ! i'" by blast
    with sr that out[of j] show ?thesis by (simp add: sep_def)
  next
    case False
    with sr that out[of i] out[of j] show ?thesis by (simp add: sep_def)
  qed
  have 3: "arr' ! i \<le> arr' ! s" if "i < s" for i
  proof (cases "l \<le> i")
    case True
    with lo[of i] that show ?thesis by simp
  next
    case False
    with 1[of i s] sr' rn ls show ?thesis by simp
  qed
  have 4: "arr' ! s \<le> arr' ! j" if "s < j" "j < length arr" for j
  proof (cases "j \<le> r")
    case True
    with hi[of j] that show ?thesis by simp
  next
    case False
    with 2[of s j] sr' that show ?thesis by simp
  qed
  have 5: "arr' ! i \<le> arr' ! j" if "i < s" "s \<le> j" "j < length arr" for i j
  proof (cases "j = s")
    case True
    with 3[of i] that show ?thesis by simp
  next
    case False
    with 3[of i] 4[of j] that show ?thesis by simp
  qed
  have 6: "arr' ! i \<le> arr' ! j" if "i \<le> s" "s < j" "j < length arr" for i j
  proof (cases "i = s")
    case True
    with 4[of j] that show ?thesis by simp
  next
    case False
    with 3[of i] 4[of j] that show ?thesis by simp
  qed
  show ?thesis
    using 1 2 5 6 by (simp add: sep_def len less_Suc_eq_le)
qed


lemmas quickselect_simps = quickselect.simps
declare quickselect.simps [simp del]

lemma quickselect_found:
  assumes "0 \<le> left" and "left \<le> k" and "k \<le> right" and "right < int (length arr)"
    and "sep arr (nat left)" and "sep arr (Suc (nat right))"
  shows "\<exists>arr' rng'. quickselect arr k left right rng = Found (arr' ! nat k) arr' rng'
           \<and> length arr' = length arr \<and> mset arr' = mset arr
           \<and> sep arr' (nat k) \<and> sep arr' (Suc (nat k))"
  using assms
proof (induction arr k left right rng rule: quickselect.induct)
  case (1 arr k left right rng)
  obtain arr1 s where pp: "partition_pass arr (nat left) (nat right) (shd rng) = (arr1, s)"
    by (cases "partition_pass arr (nat left) (nat right) (shd rng)")
  have lr: "nat left \<le> nat right" and rn: "nat right < length arr"
    using "1.prems" by simp_all
  have bounds: "left \<le> right" "0 \<le> left \<and> right < int (length arr)"
    using "1.prems" by simp_all
  from partition_pass_spec[OF pp lr rn]
  have len: "length arr1 = length arr" and ms: "mset arr1 = mset arr"
    and ls: "nat left \<le> s" and sr: "s \<le> nat right"
    by simp_all
  from partition_pass_sep[OF pp lr rn "1.prems"(5,6)]
  have s1: "sep arr1 (nat left)" and s2: "sep arr1 (Suc (nat right))"
    and s3: "sep arr1 s" and s4: "sep arr1 (Suc s)"
    by simp_all
  have unfold: "quickselect arr k left right rng =
      (if k = int s then Found (arr1 ! s) arr1 (stl rng)
       else if k < int s then quickselect arr1 k left (int s - 1) (stl rng)
       else quickselect arr1 k (int s + 1) right (stl rng))"
    using bounds pp by (simp add: quickselect_simps[of arr k left right rng])
  show ?case
  proof (cases "k = int s")
    case True
    with unfold len ms s3 s4 show ?thesis by auto
  next
    case False
    note ks = False
    show ?thesis
    proof (cases "k < int s")
      case True
      have "\<exists>arr' rng'. quickselect arr1 k left (int s - 1) (stl rng) = Found (arr' ! nat k) arr' rng'
           \<and> length arr' = length arr1 \<and> mset arr' = mset arr1
           \<and> sep arr' (nat k) \<and> sep arr' (Suc (nat k))"
      proof (rule "1.IH"(1)[OF bounds pp[symmetric] ks True])
        show "0 \<le> left" "left \<le> k" using "1.prems" by simp_all
        show "k \<le> int s - 1" using True by simp
        show "int s - 1 < int (length arr1)" using sr rn len by simp
        show "sep arr1 (nat left)" by (rule s1)
        have "Suc (nat (int s - 1)) = s" using True "1.prems"(1,2) by simp
        then show "sep arr1 (Suc (nat (int s - 1)))" using s3 by simp
      qed
      with unfold ks True len ms show ?thesis by simp
    next
      case False
      have "\<exists>arr' rng'. quickselect arr1 k (int s + 1) right (stl rng) = Found (arr' ! nat k) arr' rng'
           \<and> length arr' = length arr1 \<and> mset arr' = mset arr1
           \<and> sep arr' (nat k) \<and> sep arr' (Suc (nat k))"
      proof (rule "1.IH"(2)[OF bounds pp[symmetric] ks False])
        show "0 \<le> int s + 1" by simp
        show "int s + 1 \<le> k" using False ks by simp
        show "k \<le> right" "right < int (length arr1)" using "1.prems" len by simp_all
        have "nat (int s + 1) = Suc s" by simp
        then show "sep arr1 (nat (int s + 1))" using s4 by simp
        show "sep arr1 (Suc (nat right))" by (rule s2)
      qed
      with unfold ks False len ms show ?thesis by simp
    qed
  qed
qed

lemma sort_nth_sep:
  assumes k: "k < length xs" and a: "sep xs k" and b: "sep xs (Suc k)"
  shows "sort xs ! k = xs ! k"
proof -
  define A where "A = take k xs"
  define B where "B = drop (Suc k) xs"
  have xs: "xs = A @ xs ! k # B"
    unfolding A_def B_def using k by (simp add: id_take_nth_drop)
  have lenA: "length A = k" using k by (simp add: A_def)
  have A_le: "\<forall>x\<in>set A. x \<le> xs ! k"
  proof
    fix x assume "x \<in> set A"
    then obtain i where "i < length A" "x = A ! i" by (metis in_set_conv_nth)
    then have "i < k" "x = xs ! i" using lenA by (simp_all add: A_def)
    with a k show "x \<le> xs ! k" by (simp add: sep_def)
  qed
  have B_ge: "\<forall>x\<in>set B. xs ! k \<le> x"
  proof
    fix x assume "x \<in> set B"
    then obtain i where i: "i < length B" "x = B ! i" by (metis in_set_conv_nth)
    then have "Suc k + i < length xs" "x = xs ! (Suc k + i)" by (simp_all add: B_def)
    with b show "xs ! k \<le> x" by (simp add: sep_def)
  qed
  have "sorted (sort A @ xs ! k # sort B)"
    using A_le B_ge by (fastforce simp: sorted_append intro: order_trans)
  moreover have "mset (sort A @ xs ! k # sort B) = mset xs"
    by (subst (2) xs) simp
  ultimately have "sort xs = sort A @ xs ! k # sort B"
    by (metis properties_for_sort)
  then show ?thesis by (simp add: nth_append lenA)
qed

subsection \<open>Selection and the median\<close>

lemma extractNumbers_numbers: "extractNumbers (JArr (map JNum xs)) None = Inr xs"
proof -
  have "extract_loop (map JNum xs) i acc = Inr (acc @ xs)" for i acc
    by (induction xs arbitrary: i acc) simp_all
  from this[of 0 "[]"] show ?thesis
    by (cases xs) (simp_all add: extractNumbers_def mapped_values_def)
qed

lemma quickselect_returns_found:
  assumes "0 \<le> left" and "left \<le> k" and "k \<le> right" and "right < int (length arr)"
  shows "\<exists>v arr' rng'. quickselect arr k left right rng = Found v arr' rng'"
  using assms
proof (induction arr k left right rng rule: quickselect.induct)
  case (1 arr k left right rng)
  obtain arr1 s where pp: "partition_pass arr (nat left) (nat right) (shd rng) = (arr1, s)"
    by (cases "partition_pass arr (nat left) (nat right) (shd rng)")
  have lr: "nat left \<le> nat right" and rn: "nat right < length arr"
    using "1.prems" by simp_all
  have bounds: "left \<le> right" "0 \<le> left \<and> right < int (length arr)"
    using "1.prems" by simp_all
  from partition_pass_spec[OF pp lr rn]
  have len: "length arr1 = length arr" and ls: "nat left \<le> s" and sr: "s \<le> nat right"
    by simp_all
  have unfold: "quickselect arr k left right rng =
      (if k = int s then Found (arr1 ! s) arr1 (stl rng)
       else if k < int s then quickselect arr1 k left (int s - 1) (stl rng)
       else quickselect arr1 k (int s + 1) right (stl rng))"
    using bounds pp by (simp add: quickselect_simps[of arr k left right rng])
  show ?case
  proof (cases "k = int s")
    case True
    with unfold show ?thesis by simp
  next
    case False
    note ks = False
    show ?thesis
    proof (cases "k < int s")
      case True
      have "\<exists>v arr' rng'. quickselect arr1 k left (int s - 1) (stl rng) = Found v arr' rng'"
        using "1.IH"(1)[OF bounds pp[symmetric] ks True] "1.prems" True sr rn len by simp
      with unfold ks True show ?thesis by simp
    next
      case False
      have "\<exists>v arr' rng'. quickselect arr1 k (int s + 1) right (stl rng) = Found v arr' rng'"
        using "1.IH"(2)[OF bounds pp[symmetric] ks False] "1.prems" False ks len by simp
      with unfold ks False show ?thesis by simp
    qed
  qed
qed

lemma sep_0: "sep arr 0"
  by (simp add: sep_def)

lemma sep_length: "length arr \<le> p \<Longrightarrow> sep arr p"
  by (simp add: sep_def)

lemma sort_mset_eq: "mset xs = mset ys \<Longrightarrow> sort xs = sort (ys :: real list)"
  by (metis sorted_list_of_multiset_mset)

lemma quickselect_whole:
  assumes "0 \<le> k" and "k < int (length nums)"
  shows "\<exists>arr' rng'. quickselect nums k 0 (int (length nums) - 1) rng
             = Found (sort nums ! nat k) arr' rng'
           \<and> length arr' = length nums \<and> mset arr' = mset nums
           \<and> sep arr' (nat k) \<and> sep arr' (Suc (nat k))"
proof -
  have "sep nums (nat 0)" "sep nums (Suc (nat (int (length nums) - 1)))"
    using assms by (simp_all add: sep_0 sep_length)
  from quickselect_found[OF _ _ _ _ this, of k rng] assms
  obtain arr' rng' where q: "quickselect nums k 0 (int (length nums) - 1) rng
             = Found (arr' ! nat k) arr' rng'"
    and l: "length arr' = length nums" and m: "mset arr' = mset nums"
    and s: "sep arr' (nat k)" "sep arr' (Suc (nat k))"
    by auto
  have "sort arr' ! nat k = arr' ! nat k"
    using sort_nth_sep[OF _ s] assms l by simp
  with sort_mset_eq[OF m] q l m s show ?thesis by auto
qed

lemma quickselect_upper:
  assumes "0 \<le> k" and "k < int (length arr)" and "sep arr (nat k)"
  shows "\<exists>arr' rng'. quickselect arr k k (int (length arr) - 1) rng
             = Found (sort arr ! nat k) arr' rng'"
proof -
  have "sep arr (Suc (nat (int (length arr) - 1)))"
    using assms by (simp add: sep_length)
  from quickselect_found[OF _ _ _ _ assms(3) this, of k rng] assms
  obtain arr' rng' where q: "quickselect arr k k (int (length arr) - 1) rng
             = Found (arr' ! nat k) arr' rng'"
    and l: "length arr' = length arr" and m: "mset arr' = mset arr"
    and s: "sep arr' (nat k)" "sep arr' (Suc (nat k))"
    by auto
  have "sort arr' ! nat k = arr' ! nat k"
    using sort_nth_sep[OF _ s] assms l by simp
  with sort_mset_eq[OF m] q show ?thesis by auto
qed

lemma median_small:
  assumes "extractNumbers arr k = Inr nums" and "nums \<noteq> []" and "length nums < THRESHOLD"
  shows "median arr k rng = Inr (sortBasedMedian nums)"
  using assms by (simp add: median_def sortBasedMedian_def medianOf_def Let_def)

lemma median_large_odd:
  assumes "extractNumbers arr k = Inr nums" and "THRESHOLD \<le> length nums"
    and "odd (length nums)"
  shows "median arr k rng = Inr (sortBasedMedian nums)"
proof -
  have n: "nums \<noteq> []" "\<not> length nums < THRESHOLD" "length nums mod 2 \<noteq> 0"
    using assms by (auto simp: THRESHOLD_def odd_iff_mod_2_eq_one)
  have "0 \<le> int (length nums div 2)" "int (length nums div 2) < int (length nums)"
    using n by simp_all
  from quickselect_whole[OF this, of rng]
  obtain arr' rng' where "quickselect nums (int (length nums div 2)) 0 (int (length nums) - 1) rng
             = Found (sort nums ! (length nums div 2)) arr' rng'"
    by auto
  with assms(1) n show ?thesis
    by (simp add: median_def sortBasedMedian_def Let_def)
qed

lemma median_large_even:
  assumes "extractNumbers arr k = Inr nums" and "THRESHOLD \<le> length nums"
    and "even (length nums)"
  shows "median arr k rng = Inr (toFixedNumber (sortBasedMedian nums) 10)"
proof -
  define mid where "mid = length nums div 2"
  have n: "nums \<noteq> []" "\<not> length nums < THRESHOLD" "length nums mod 2 = 0"
    using assms by (auto simp: THRESHOLD_def)
  have mid: "0 < mid" "mid < length nums"
    using assms(2) by (simp_all add: mid_def THRESHOLD_def)
  have "0 \<le> int mid - 1" "int mid - 1 < int (length nums)"
    using mid by simp_all
  from quickselect_whole[OF this, of rng]
  obtain copy rng1 where q1: "quickselect nums (int mid - 1) 0 (int (length nums) - 1) rng
             = Found (sort nums ! nat (int mid - 1)) copy rng1"
    and l: "length copy = length nums" and m: "mset copy = mset nums"
    and s: "sep copy (Suc (nat (int mid - 1)))"
    by auto
  have s': "sep copy (nat (int mid))" using s mid by (simp add: Suc_nat_eq_nat_zadd1)
  have "0 \<le> int mid" "int mid < int (length copy)" using mid l by simp_all
  from quickselect_upper[OF this s', of rng1]
  obtain arr2 rng2 where q2: "quickselect copy (int mid) (int mid) (int (length copy) - 1) rng1
             = Found (sort copy ! mid) arr2 rng2"
    by auto
  have sc: "sort copy = sort nums" using m by (rule sort_mset_eq)
  have i1: "nat (int mid - 1) = mid - 1" by simp
  show ?thesis
    using assms(1) n q1 q2
    by (simp add: median_def sortBasedMedian_def Let_def mid_def[symmetric] sc i1)
qed

lemma median_empty:
  "extractNumbers arr k = Inr [] \<Longrightarrow> median arr k rng = Inr 0"
  by (simp add: median_def)

lemma median_hybrid:
  assumes "extractNumbers arr k = Inr nums"
  shows "median arr k rng =
    Inr (if length nums < THRESHOLD \<or> odd (length nums) then sortBasedMedian nums
         else toFixedNumber (sortBasedMedian nums) 10)"
proof (cases "nums = []")
  case True
  with assms show ?thesis by (simp add: median_empty sortBasedMedian_def THRESHOLD_def)
next
  case False
  with assms show ?thesis
    using median_small[of arr k nums rng] median_large_odd[of arr k nums rng]
      median_large_even[of arr k nums rng]
    by (cases "length nums < THRESHOLD") auto
qed

subsection \<open>Rounded and unrounded results\<close>

lemma extractNumbers_replicate:
  "extractNumbers (JArr (replicate n (JNum x))) None = Inr (replicate n x)"
  using extractNumbers_numbers[of "replicate n x"] by simp

lemma sort_replicate: "sort (replicate n (x::real)) = replicate n x"
  by (simp add: sorted_sort_id)

lemma sortBasedMedian_replicate:
  "0 < n \<Longrightarrow> sortBasedMedian (replicate n x) = x"
  by (auto simp: sortBasedMedian_def sort_replicate Let_def)

lemma toFixedNumber_0: "toFixedNumber 0 n = 0"
  by (simp add: toFixedNumber_def)

lemma mean_rounded: "mean arr k = Inr v \<Longrightarrow> \<exists>x. v = toFixedNumber x 10"
  using toFixedNumber_0[of 10, symmetric]
  by (auto simp: mean_def split: sum.splits if_splits)

lemma variance_rounded: "variance arr options = Inr v \<Longrightarrow> \<exists>x. v = toFixedNumber x 10"
  using toFixedNumber_0[of 10, symmetric]
  by (auto simp: variance_def Let_def split: sum.splits if_splits)

lemma stdev_rounded: "stdev arr options = Inr v \<Longrightarrow> \<exists>x. v = toFixedNumber x 10"
  using toFixedNumber_0[of 10, symmetric]
  by (auto simp: stdev_def Let_def split: sum.splits if_splits)

lemma percentile_index_bounds:
  assumes "0 \<le> p" and "p \<le> 100" and "nums \<noteq> []"
  shows "nat \<lfloor>p / 100 * real (length nums - 1)\<rfloor> < length nums"
    and "nat \<lceil>p / 100 * real (length nums - 1)\<rceil> < length nums"
proof -
  define n1 where "n1 = length nums - 1"
  have "p / 100 \<le> 1" "0 \<le> p / 100" using assms by simp_all
  then have "p / 100 * real n1 \<le> 1 * real n1"
    by (intro mult_right_mono) simp_all
  then have le: "p / 100 * real n1 \<le> real n1" by simp
  have ge: "0 \<le> p / 100 * real n1" using assms by simp
  have "\<lceil>p / 100 * real n1\<rceil> \<le> int n1" using le by (simp add: ceiling_le_iff)
  moreover have "\<lfloor>p / 100 * real n1\<rfloor> \<le> \<lceil>p / 100 * real n1\<rceil>" by (rule floor_le_ceiling)
  moreover have "n1 < length nums" using assms(3) by (simp add: n1_def)
  ultimately show "nat \<lfloor>p / 100 * real (length nums - 1)\<rfloor> < length nums"
    and "nat \<lceil>p / 100 * real (length nums - 1)\<rceil> < length nums"
    unfolding n1_def[symmetric] by linarith+
qed

lemma Math_min_in: "nums \<noteq> [] \<Longrightarrow> Math_min nums \<in> set nums"
  using Min_in[of "set nums"] by (simp add: Math_min_Min)

lemma Math_max_in: "nums \<noteq> [] \<Longrightarrow> Math_max nums \<in> set nums"
  using Max_in[of "set nums"] by (simp add: Math_max_Max)

lemma at_rank_rounded_or_element:
  assumes "0 \<le> q" and "q \<le> 100" and "nums \<noteq> []"
  shows "at_rank (sort nums) q \<in> set nums \<or> (\<exists>x. at_rank (sort nums) q = toFixedNumber x 10)"
proof (cases "\<lfloor>q / 100 * real (length nums - 1)\<rfloor> = \<lceil>q / 100 * real (length nums - 1)\<rceil>")
  case True
  have "nat \<lfloor>q / 100 * real (length nums - 1)\<rfloor> < length (sort nums)"
    unfolding length_sort by (rule percentile_index_bounds(1)[OF assms])
  then have "sort nums ! nat \<lfloor>q / 100 * real (length nums - 1)\<rfloor> \<in> set (sort nums)"
    by (rule nth_mem)
  with True show ?thesis by (simp add: at_rank_def Let_def)
next
  case False
  then show ?thesis by (auto simp: at_rank_def Let_def)
qed

lemma percentile_rounded_or_element:
  assumes "extractNumbers arr k = Inr nums" and "percentile arr p k = Inr (Finite v)"
  shows "v \<in> set nums \<or> (\<exists>x. v = toFixedNumber x 10)"
proof (cases "nums = []")
  case True
  with assms toFixedNumber_0[of 10, symmetric] show ?thesis
    by (auto simp: percentile_def split: if_splits)
next
  case False
  note ne = False
  show ?thesis
  proof (cases p)
    case (Finite q)
    have q: "0 \<le> q" "q \<le> 100"
      using assms(2) Finite by (auto simp: percentile_def split: if_splits)
    from at_rank_rounded_or_element[OF q ne] assms Finite ne
      Math_min_in[OF ne] Math_max_in[OF ne]
    show ?thesis by (auto simp: percentile_def split: if_splits)
  qed (use assms ne in \<open>auto simp: percentile_def split: if_splits\<close>)
qed

lemma median_odd_element:
  assumes "extractNumbers arr k = Inr nums" and "odd (length nums)"
    and "median arr k rng = Inr v"
  shows "v \<in> set nums"
proof -
  have n: "nums \<noteq> []" using assms(2) by auto
  have "length nums div 2 < length (sort nums)" using n by simp
  then have "sort nums ! (length nums div 2) \<in> set (sort nums)" by (rule nth_mem)
  moreover have "sortBasedMedian nums = sort nums ! (length nums div 2)"
    using assms(2) n by (simp add: sortBasedMedian_def Let_def odd_iff_mod_2_eq_one)
  ultimately show ?thesis
    using median_hybrid[OF assms(1), of rng] assms(2,3) by simp
qed

subsection \<open>The store: where the calculators write, and that they compute the same\<close>

lemma preserves_refl: "preserves st st"
  by (simp add: preserves_def)

lemma preserves_trans: "preserves st st1 \<Longrightarrow> preserves st1 st2 \<Longrightarrow> preserves st st2"
  by (auto simp: preserves_def)

lemma preserves_update: "preserves st st1 \<Longrightarrow> length st \<le> a \<Longrightarrow> preserves st (st1[a := x])"
  by (auto simp: preserves_def)

lemma new_array_spec:
  "new_array st elems = (st', a) \<Longrightarrow>
   preserves st st' \<and> a = length st \<and> length st' = Suc (length st) \<and> st' ! a = elems"
  by (auto simp: new_array_def preserves_def nth_append)

lemma finite_numbers_append:
  "finite_numbers (xs @ ys) = finite_numbers xs @ finite_numbers ys"
  by (induction xs rule: finite_numbers.induct) simp_all

lemma finite_numbers_map_JNum: "finite_numbers (map JNum xs) = xs"
  by (induction xs) simp_all

lemma push_loop_spec:
  assumes "push_loop st numbers vs i = (st', r)" and "numbers < length st"
    and "st ! numbers = map JNum acc"
  shows "length st' = length st \<and> (\<forall>b. b \<noteq> numbers \<longrightarrow> st' ! b = st ! b)
       \<and> (case extract_loop vs i acc of
             Inl e \<Rightarrow> r = Inl e
           | Inr ns \<Rightarrow> r = Inr () \<and> st' ! numbers = map JNum ns)"
  using assms
proof (induction vs arbitrary: st i acc)
  case Nil
  then show ?case by simp
next
  case (Cons v vs)
  show ?case
  proof (cases "v = JNull \<or> v = JUndefined")
    case True
    with Cons.prems Cons.IH[of st "Suc i" acc] show ?thesis by auto
  next
    case False
    note nn = False
    show ?thesis
    proof (cases v)
      case (JNum x)
      define st1 where "st1 = st[numbers := st ! numbers @ [JNum x]]"
      have p: "push_loop st1 numbers vs (Suc i) = (st', r)"
        using Cons.prems(1) JNum by (simp add: st1_def)
      have l: "numbers < length st1" using Cons.prems(2) by (simp add: st1_def)
      have c: "st1 ! numbers = map JNum (acc @ [x])"
        using Cons.prems(2,3) by (simp add: st1_def)
      from Cons.IH[OF p l c] JNum Cons.prems(2) show ?thesis
        by (auto simp: st1_def)
    qed (use Cons.prems nn in auto)
  qed
qed

lemma extractNumbers_st_spec:
  assumes "extractNumbers_st st (ArrayAt a) k = (st', r)" and "a < length st"
  shows "preserves st st'
       \<and> (case r of
             Inl e \<Rightarrow> extractNumbers (JArr (st ! a)) k = Inl e
           | Inr nums \<Rightarrow> length st \<le> nums \<and> nums < length st'
               \<and> extractNumbers (JArr (st ! a)) k = Inr (numbers_at st' nums)
               \<and> st' ! nums = map JNum (numbers_at st' nums))"
proof (cases "st ! a = []")
  case True
  with assms show ?thesis
    by (auto simp: extractNumbers_st_def extractNumbers_def new_array_def preserves_def
        nth_append numbers_at_def)
next
  case False
  note ne = False
  show ?thesis
  proof (cases "mapped_values (st ! a) k")
    case (Inl e)
    with assms ne show ?thesis
      by (auto simp: extractNumbers_st_def extractNumbers_def mapped_values_def preserves_refl
          split: if_splits sum.splits)
  next
    case (Inr vs)
    obtain st1 mapped where m: "(if truthy_key k
                   then (case map_prop (st ! a) (the k) of
                           Inl e \<Rightarrow> Inl e
                         | Inr vs \<Rightarrow> Inr (new_array st vs))
                   else Inr (st, a)) = Inr (st1, mapped)"
      and p1: "preserves st st1" and mv: "st1 ! mapped = vs" and ml: "mapped < length st1"
      using Inr assms(2)
      by (cases "truthy_key k")
         (auto simp: mapped_values_def new_array_def preserves_def nth_append split: sum.splits)
    define st2 where "st2 = st1 @ [[]]"
    define numbers where "numbers = length st1"
    have na: "new_array st1 [] = (st2, numbers)" by (simp add: new_array_def st2_def numbers_def)
    have p2: "preserves st st2" using p1 by (auto simp: preserves_def st2_def nth_append)
    have mv2: "st2 ! mapped = vs" using mv ml by (simp add: st2_def nth_append)
    have nl: "numbers < length st2" "st2 ! numbers = map JNum []"
      by (simp_all add: st2_def numbers_def)
    obtain st3 r3 where pl: "push_loop st2 numbers vs 0 = (st3, r3)"
      by (cases "push_loop st2 numbers vs 0")
    from push_loop_spec[OF pl nl]
    have l3: "length st3 = length st2" and o3: "\<And>b. b \<noteq> numbers \<Longrightarrow> st3 ! b = st2 ! b"
      and r3: "case extract_loop vs 0 [] of Inl e \<Rightarrow> r3 = Inl e
               | Inr ns \<Rightarrow> r3 = Inr () \<and> st3 ! numbers = map JNum ns"
      by simp_all
    have le: "length st \<le> numbers" using p1 by (simp add: preserves_def numbers_def)
    have p3: "preserves st st3"
      using p2 l3 o3 le by (auto simp: preserves_def)
    have res: "(st', r) = (case r3 of Inl e \<Rightarrow> (st3, Inl e) | Inr u \<Rightarrow> (st3, Inr numbers))"
      using assms(1) ne m na pl mv2
      by (simp add: extractNumbers_st_def split: sum.splits)
    have ex: "extractNumbers (JArr (st ! a)) k = extract_loop vs 0 []"
      using Inr by (rule extractNumbers_mapped)
    show ?thesis
    proof (cases "extract_loop vs 0 []")
      case (Inl e)
      with r3 res ex p3 show ?thesis by simp
    next
      case (Inr ns)
      with r3 res ex p3 le nl l3 show ?thesis
        by (simp add: numbers_at_def finite_numbers_map_JNum)
    qed
  qed
qed

lemma extractNumbers_st_other:
  "extractNumbers_st st (Other v) k = (st, Inl InvalidInputKind)"
  by (simp add: extractNumbers_st_def)

lemma mean_st_spec:
  assumes "mean_st st (ArrayAt a) k = (st', r)" and "a < length st"
  shows "preserves st st' \<and> r = mean (JArr (st ! a)) k"
proof -
  obtain st1 r1 where e: "extractNumbers_st st (ArrayAt a) k = (st1, r1)"
    by (cases "extractNumbers_st st (ArrayAt a) k")
  from extractNumbers_st_spec[OF e assms(2)] assms(1) e show ?thesis
    by (cases r1) (auto simp: mean_st_def mean_def Let_def split: if_splits)
qed

lemma range_st_spec:
  assumes "range_st st (ArrayAt a) k = (st', r)" and "a < length st"
  shows "preserves st st' \<and> r = range_of (JArr (st ! a)) k"
proof -
  obtain st1 r1 where e: "extractNumbers_st st (ArrayAt a) k = (st1, r1)"
    by (cases "extractNumbers_st st (ArrayAt a) k")
  from extractNumbers_st_spec[OF e assms(2)] assms(1) e show ?thesis
    by (cases r1) (auto simp: range_st_def range_of_def Let_def split: if_splits)
qed

lemma variance_st_spec:
  assumes "variance_st st (ArrayAt a) options = (st', r)" and "a < length st"
  shows "preserves st st' \<and> r = variance (JArr (st ! a)) options"
proof -
  obtain st1 r1 where e: "extractNumbers_st st (ArrayAt a) (key options) = (st1, r1)"
    by (cases "extractNumbers_st st (ArrayAt a) (key options)")
  from extractNumbers_st_spec[OF e assms(2)] assms(1) e show ?thesis
    by (cases r1) (auto simp: variance_st_def variance_def Let_def split: if_splits)
qed

lemma stdev_st_spec:
  assumes "stdev_st st (ArrayAt a) options = (st', r)" and "a < length st"
  shows "preserves st st' \<and> r = stdev (JArr (st ! a)) options"
proof -
  obtain st1 r1 where e: "extractNumbers_st st (ArrayAt a) (key options) = (st1, r1)"
    by (cases "extractNumbers_st st (ArrayAt a) (key options)")
  from extractNumbers_st_spec[OF e assms(2)] assms(1) e show ?thesis
    by (cases r1) (auto simp: stdev_st_def stdev_def Let_def split: if_splits)
qed

lemma copy_sorted:
  assumes "st1 ! nums = map JNum ns" and "nums < length st1"
    and "new_array st1 (st1 ! nums) = (st2, c)"
  shows "preserves st1 (sort_in_place st2 c) \<and> numbers_at (sort_in_place st2 c) c = sort ns"
  using assms
  by (auto simp: new_array_def sort_in_place_def preserves_def numbers_at_def nth_append
      finite_numbers_map_JNum)

lemma percentile_st_spec:
  assumes "percentile_st st (ArrayAt a) p k = (st', r)" and "a < length st"
  shows "preserves st st' \<and> r = percentile (JArr (st ! a)) p k"
proof (cases "number_lt p 0 \<or> number_gt p 100")
  case True
  with assms show ?thesis by (auto simp: percentile_st_def percentile_def preserves_refl)
next
  case False
  obtain st1 r1 where e: "extractNumbers_st st (ArrayAt a) k = (st1, r1)"
    by (cases "extractNumbers_st st (ArrayAt a) k")
  note es = extractNumbers_st_spec[OF e assms(2)]
  show ?thesis
  proof (cases r1)
    case (Inl err)
    with es assms(1) e False show ?thesis
      by (auto simp: percentile_st_def percentile_def)
  next
    case (Inr nums)
    define ns where "ns = numbers_at st1 nums"
    from es Inr have p1: "preserves st st1" and nl: "nums < length st1"
      and ex: "extractNumbers (JArr (st ! a)) k = Inr ns"
      and c: "st1 ! nums = map JNum ns"
      by (simp_all add: ns_def)
    obtain st2 c2 where na: "new_array st1 (st1 ! nums) = (st2, c2)"
      by (cases "new_array st1 (st1 ! nums)")
    from copy_sorted[OF c nl na]
    have p3: "preserves st1 (sort_in_place st2 c2)"
      and s3: "numbers_at (sort_in_place st2 c2) c2 = sort ns"
      by simp_all
    have p13: "preserves st (sort_in_place st2 c2)" using p1 p3 by (rule preserves_trans)
    show ?thesis
      using assms(1) e Inr False ex na s3 p1 p13
      by (cases p)
         (auto simp: percentile_st_def percentile_def Let_def ns_def[symmetric]
          split: if_splits)
  qed
qed

lemma quickselect_st_spec:
  assumes "st ! c = map JNum arr" and "c < length st"
    and "quickselect_st st c k l r rng = (st', res)"
  shows "length st' = length st \<and> (\<forall>b. b \<noteq> c \<longrightarrow> st' ! b = st ! b)
       \<and> (case qs_returned (quickselect arr k l r rng) of
             None \<Rightarrow> res = None
           | Some (v, arr', rng') \<Rightarrow> res = Some (v, rng') \<and> st' ! c = map JNum arr')"
proof -
  have n: "numbers_at st c = arr"
    using assms(1) by (simp add: numbers_at_def finite_numbers_map_JNum)
  show ?thesis
  proof (cases "quickselect arr k l r rng")
    case (Found v arr' rng')
    with assms n show ?thesis by (auto simp: quickselect_st_def)
  next
    case (Fallback ov arr' rng')
    with assms n show ?thesis by (cases ov) (auto simp: quickselect_st_def)
  next
    case OutOfBounds
    with assms n show ?thesis by (auto simp: quickselect_st_def)
  qed
qed

lemma copy_array:
  assumes "st1 ! nums = map JNum ns" and "nums < length st1"
    and "new_array st1 (st1 ! nums) = (st2, c)"
  shows "preserves st1 st2 \<and> c = length st1 \<and> c < length st2 \<and> st2 ! c = map JNum ns"
  using assms by (auto simp: new_array_def preserves_def nth_append)

lemma preserves_others:
  assumes "preserves st st2" and "length st3 = length st2"
    and "\<forall>b. b \<noteq> c \<longrightarrow> st3 ! b = st2 ! b" and "length st \<le> c"
  shows "preserves st st3"
  using assms by (auto simp: preserves_def)

lemma median_st_spec:
  assumes "median_st st (ArrayAt a) k rng = (st', r)" and "a < length st"
  shows "preserves st st' \<and> r = median (JArr (st ! a)) k rng"
proof -
  obtain st1 r1 where e: "extractNumbers_st st (ArrayAt a) k = (st1, r1)"
    by (cases "extractNumbers_st st (ArrayAt a) k")
  note es = extractNumbers_st_spec[OF e assms(2)]
  show ?thesis
  proof (cases r1)
    case (Inl err)
    with es assms(1) e show ?thesis by (auto simp: median_st_def median_def)
  next
    case (Inr nums)
    define ns where "ns = numbers_at st1 nums"
    from es Inr have p1: "preserves st st1" and nl: "nums < length st1"
      and ex: "extractNumbers (JArr (st ! a)) k = Inr ns"
      and c: "st1 ! nums = map JNum ns"
      by (simp_all add: ns_def)
    have len: "length (st1 ! nums) = length ns" using c by simp
    obtain st2 c2 where na: "new_array st1 (st1 ! nums) = (st2, c2)"
      by (cases "new_array st1 (st1 ! nums)")
    from copy_array[OF c nl na]
    have p2: "preserves st1 st2" and c2: "c2 = length st1" "c2 < length st2"
      and v2: "st2 ! c2 = map JNum ns"
      by blast+
    have p02: "preserves st st2" using p1 p2 by (rule preserves_trans)
    have le: "length st \<le> c2" using p1 c2 by (simp add: preserves_def)
    consider (empty) "length ns = 0"
      | (small) "length ns \<noteq> 0" "length ns < THRESHOLD"
      | (odd) "length ns \<noteq> 0" "\<not> length ns < THRESHOLD" "length ns mod 2 \<noteq> 0"
      | (even) "length ns \<noteq> 0" "\<not> length ns < THRESHOLD" "\<not> length ns mod 2 \<noteq> 0"
      by blast
    then show ?thesis
    proof cases
      case empty
      with assms(1) e Inr ex c p1 show ?thesis
        by (simp add: median_st_def median_def)
    next
      case small
      from copy_sorted[OF c nl na]
      have p3: "preserves st1 (sort_in_place st2 c2)"
        and s3: "numbers_at (sort_in_place st2 c2) c2 = sort ns"
        by simp_all
      have "preserves st (sort_in_place st2 c2)" using p1 p3 by (rule preserves_trans)
      with assms(1) e Inr ex small na[unfolded c] s3 show ?thesis
        by (simp add: median_st_def median_def Let_def c)
    next
      case odd
      obtain st3 res where q: "quickselect_st st2 c2 (int (length ns div 2)) 0
           (int (length ns) - 1) rng = (st3, res)"
        by (cases "quickselect_st st2 c2 (int (length ns div 2)) 0 (int (length ns) - 1) rng")
      note qs = quickselect_st_spec[OF v2 c2(2) q]
      have p3: "preserves st st3"
        using preserves_others[OF p02 _ _ le] qs by simp
      have med: "median (JArr (st ! a)) k rng =
        (case qs_returned (quickselect ns (int (length ns div 2)) 0 (int (length ns) - 1) rng) of
           None \<Rightarrow> Inl Unmodelled | Some (m, x, y) \<Rightarrow> Inr m)"
        using ex odd by (simp add: median_def Let_def)
      have mst: "(st', r) = (case res of None \<Rightarrow> (st3, Inl Unmodelled)
                              | Some (m, rng1) \<Rightarrow> (st3, Inr m))"
        using assms(1) e Inr odd na[unfolded c] v2 q
        by (simp add: median_st_def Let_def c)
      show ?thesis
        using qs med mst p3
        by (cases "qs_returned (quickselect ns (int (length ns div 2)) 0
                    (int (length ns) - 1) rng)") auto
    next
      case even
      let ?mid = "int (length ns div 2)"
      obtain st3 res where q: "quickselect_st st2 c2 (?mid - 1) 0
           (int (length ns) - 1) rng = (st3, res)"
        by (cases "quickselect_st st2 c2 (?mid - 1) 0 (int (length ns) - 1) rng")
      note qs = quickselect_st_spec[OF v2 c2(2) q]
      have p3: "preserves st st3"
        using preserves_others[OF p02 _ _ le] qs by simp
      have l3: "length st3 = length st2" using qs by simp
      have med: "median (JArr (st ! a)) k rng =
        (case qs_returned (quickselect ns (?mid - 1) 0 (int (length ns) - 1) rng) of
           None \<Rightarrow> Inl Unmodelled
         | Some (m1, copy, rng1) \<Rightarrow>
             (case qs_returned (quickselect copy ?mid ?mid (int (length copy) - 1) rng1) of
                None \<Rightarrow> Inl Unmodelled
              | Some (m2, x, y) \<Rightarrow> Inr (toFixedNumber ((m1 + m2) / 2) 10)))"
        using ex even by (simp add: median_def Let_def)
      have mst: "(st', r) = (case res of None \<Rightarrow> (st3, Inl Unmodelled)
          | Some (m1, rng1) \<Rightarrow>
              (case quickselect_st st3 c2 ?mid ?mid (int (length (st3 ! c2)) - 1) rng1 of
                 (st4, None) \<Rightarrow> (st4, Inl Unmodelled)
               | (st4, Some (m2, rng2)) \<Rightarrow> (st4, Inr (toFixedNumber ((m1 + m2) / 2) 10))))"
        using assms(1) e Inr even na[unfolded c] v2 q
        by (simp add: median_st_def Let_def c)
      show ?thesis
      proof (cases "qs_returned (quickselect ns (?mid - 1) 0 (int (length ns) - 1) rng)")
        case None
        with qs med mst p3 show ?thesis by auto
      next
        case (Some t)
        obtain m1 copy rng1 where t: "t = (m1, copy, rng1)" by (cases t)
        from qs Some t have res: "res = Some (m1, rng1)" and v3: "st3 ! c2 = map JNum copy"
          by simp_all
        obtain st4 res4 where q4: "quickselect_st st3 c2 ?mid ?mid (int (length copy) - 1) rng1
             = (st4, res4)"
          by (cases "quickselect_st st3 c2 ?mid ?mid (int (length copy) - 1) rng1")
        have c3: "c2 < length st3" using c2 l3 by simp
        note qs4 = quickselect_st_spec[OF v3 c3 q4]
        have p4: "preserves st st4"
          using preserves_others[OF p3 _ _ le] qs4 by simp
        show ?thesis
          using med mst Some t res v3 q4 qs4 p4
          by (cases "qs_returned (quickselect copy ?mid ?mid (int (length copy) - 1) rng1)") auto
      qed
    qed
  qed
qed

lemma mode_st_spec:
  assumes "mode_st st (ArrayAt a) k = (st', r)" and "a < length st"
  shows "preserves st st'
       \<and> (case r of
             Inl e \<Rightarrow> mode (JArr (st ! a)) k = Inl e
           | Inr res \<Rightarrow> length st \<le> res \<and> res < length st'
               \<and> mode (JArr (st ! a)) k = Inr (numbers_at st' res))"
proof -
  obtain st1 r1 where e: "extractNumbers_st st (ArrayAt a) k = (st1, r1)"
    by (cases "extractNumbers_st st (ArrayAt a) k")
  note es = extractNumbers_st_spec[OF e assms(2)]
  show ?thesis
  proof (cases r1)
    case (Inl err)
    with es assms(1) e show ?thesis by (auto simp: mode_st_def mode_def)
  next
    case (Inr nums)
    define ns where "ns = numbers_at st1 nums"
    from es Inr have p1: "preserves st st1"
      and ex: "extractNumbers (JArr (st ! a)) k = Inr ns"
      by (simp_all add: ns_def)
    have le: "length st \<le> length st1" using p1 by (simp add: preserves_def)
    have p2: "preserves st (st1 @ [xs])" for xs
      using p1 by (auto simp: preserves_def nth_append)
    show ?thesis
    proof (cases "length ns = 0")
      case True
      have "numbers_at (st1 @ [[]]) (length st1) = []"
        by (simp add: numbers_at_def)
      with True assms(1) e Inr ex le p2[of "[]"] show ?thesis
        by (auto simp: mode_st_def mode_def Let_def ns_def[symmetric] new_array_def)
    next
      case False
      define fm where "fm = foldl mode_step ([], 0) ns"
      define keys where "keys = map fst (filter (\<lambda>(num, count). count = snd fm) (fst fm))"
      have m: "mode (JArr (st ! a)) k = Inr (sort keys)"
        using ex False by (simp add: mode_def Let_def fm_def keys_def)
      have "mode_st st (ArrayAt a) k
              = ((st1 @ [[]])[length st1 := map JNum keys, length st1 :=
                   map JNum (sort (numbers_at ((st1 @ [[]])[length st1 := map JNum keys])
                                     (length st1)))],
                 Inr (length st1))"
        using e Inr False
        by (simp add: mode_st_def Let_def ns_def[symmetric] new_array_def sort_in_place_def
            fm_def keys_def)
      also have "numbers_at ((st1 @ [[]])[length st1 := map JNum keys]) (length st1) = keys"
        by (simp add: numbers_at_def finite_numbers_map_JNum)
      finally have res: "st' = (st1 @ [[]])[length st1 := map JNum (sort keys)]"
        "r = Inr (length st1)"
        using assms(1) by simp_all
      have "preserves st st'"
        unfolding res using p2[of "[]"] le by (intro preserves_update) simp_all
      moreover have "numbers_at st' (length st1) = sort keys"
        by (simp add: res numbers_at_def finite_numbers_map_JNum)
      ultimately show ?thesis using res m le by simp
    qed
  qed
qed

lemma mean_st_preserves: "valid_input st arr \<Longrightarrow> preserves st (fst (mean_st st arr k))"
proof (cases arr)
  case (ArrayAt a)
  assume "valid_input st arr"
  with ArrayAt mean_st_spec[of st a k "fst (mean_st st arr k)" "snd (mean_st st arr k)"]
  show ?thesis by simp
next
  case (Other v)
  then show ?thesis by (simp add: mean_st_def extractNumbers_st_def preserves_refl)
qed

lemma median_st_preserves:
  "valid_input st arr \<Longrightarrow> preserves st (fst (median_st st arr k rng))"
proof (cases arr)
  case (ArrayAt a)
  assume "valid_input st arr"
  with ArrayAt median_st_spec[of st a k rng "fst (median_st st arr k rng)"
      "snd (median_st st arr k rng)"]
  show ?thesis by simp
next
  case (Other v)
  then show ?thesis by (simp add: median_st_def extractNumbers_st_def preserves_refl)
qed

lemma mode_st_preserves: "valid_input st arr \<Longrightarrow> preserves st (fst (mode_st st arr k))"
proof (cases arr)
  case (ArrayAt a)
  assume "valid_input st arr"
  with ArrayAt mode_st_spec[of st a k "fst (mode_st st arr k)" "snd (mode_st st arr k)"]
  show ?thesis by simp
next
  case (Other v)
  then show ?thesis by (simp add: mode_st_def extractNumbers_st_def preserves_refl)
qed

lemma range_st_preserves: "valid_input st arr \<Longrightarrow> preserves st (fst (range_st st arr k))"
proof (cases arr)
  case (ArrayAt a)
  assume "valid_input st arr"
  with ArrayAt range_st_spec[of st a k "fst (range_st st arr k)" "snd (range_st st arr k)"]
  show ?thesis by simp
next
  case (Other v)
  then show ?thesis by (simp add: range_st_def extractNumbers_st_def preserves_refl)
qed

lemma variance_st_preserves:
  "valid_input st arr \<Longrightarrow> preserves st (fst (variance_st st arr options))"
proof (cases arr)
  case (ArrayAt a)
  assume "valid_input st arr"
  with ArrayAt variance_st_spec[of st a options "fst (variance_st st arr options)"
      "snd (variance_st st arr options)"]
  show ?thesis by simp
next
  case (Other v)
  then show ?thesis by (simp add: variance_st_def extractNumbers_st_def preserves_refl)
qed

lemma stdev_st_preserves:
  "valid_input st arr \<Longrightarrow> preserves st (fst (stdev_st st arr options))"
proof (cases arr)
  case (ArrayAt a)
  assume "valid_input st arr"
  with ArrayAt stdev_st_spec[of st a options "fst (stdev_st st arr options)"
      "snd (stdev_st st arr options)"]
  show ?thesis by simp
next
  case (Other v)
  then show ?thesis by (simp add: stdev_st_def extractNumbers_st_def preserves_refl)
qed

lemma percentile_st_preserves:
  "valid_input st arr \<Longrightarrow> preserves st (fst (percentile_st st arr p k))"
proof (cases arr)
  case (ArrayAt a)
  assume "valid_input st arr"
  with ArrayAt percentile_st_spec[of st a p k "fst (percentile_st st arr p k)"
      "snd (percentile_st st arr p k)"]
  show ?thesis by simp
next
  case (Other v)
  then show ?thesis by (simp add: percentile_st_def extractNumbers_st_def preserves_refl)
qed

section \<open>Results\<close>

subsection \<open>The hybrid median against the median by full sort\<close>

text \<open>
  C1. The claim: for every non-empty sequence and every sequence of pivot choices, \<open>median\<close>
  returns the median computed by fully sorting the sequence, below the threshold and at or
  above it. Lemma \<open>median_hybrid\<close> shows how far this holds: for every random stream the
  two selections on the shared array find the two middle values of the sorted sequence.
  But at or above the threshold an even count rounds their average to 10 digits, and below
  the threshold it does not. The theorem evaluates \<open>median\<close> on 32 copies of
  \<open>2.5e-11\<close>: the result is 0, where the median by full sort is \<open>2.5e-11\<close>, which is also
  what \<open>median\<close> returns on 30 copies.
\<close>

theorem median_threshold_divergence:
  "median (JArr (replicate 32 (JNum (1 / 40000000000)))) None rng = Inr 0
   \<and> sortBasedMedian (replicate 32 (1 / 40000000000)) = 1 / 40000000000
   \<and> median (JArr (replicate 30 (JNum (1 / 40000000000)))) None rng = Inr (1 / 40000000000)"
proof -
  have r: "toFixedNumber (1 / 40000000000) 10 = 0"
    by (simp add: toFixedNumber_def round_def)
  show ?thesis
    using median_hybrid[OF extractNumbers_replicate, of 32 "1 / 40000000000" rng]
      median_hybrid[OF extractNumbers_replicate, of 30 "1 / 40000000000" rng]
    by (simp add: sortBasedMedian_replicate THRESHOLD_def r)
qed

subsection \<open>Errors of variance and stdev\<close>

text \<open>
  C2, as claimed: \<open>variance\<close> and \<open>stdev\<close> fail with \<open>InsufficientData\<close> whenever the
  extracted sequence has fewer than 2 elements in sample mode or is empty in population
  mode. This fails on the empty sequence, where both return 0 in either mode:
\<close>

theorem variance_stdev_empty_counterexample:
  "extractNumbers (JArr []) None = Inr []
   \<and> variance (JArr []) \<lparr>key = None, isSample = Some True\<rparr> = Inr 0
   \<and> stdev (JArr []) \<lparr>key = None, isSample = Some True\<rparr> = Inr 0
   \<and> variance (JArr []) \<lparr>key = None, isSample = Some False\<rparr> \<noteq> Inl InsufficientData
   \<and> stdev (JArr []) \<lparr>key = None, isSample = Some False\<rparr> \<noteq> Inl InsufficientData"
  by (simp add: variance_def stdev_def extractNumbers_def)

text \<open>
  C2, amended: \<open>variance\<close> and \<open>stdev\<close> fail with \<open>InsufficientData\<close> exactly when the
  extracted sequence has exactly one element and sample mode is on; on an empty extracted
  sequence both return 0.
\<close>

theorem variance_stdev_insufficient_iff:
  "(variance arr options = Inl InsufficientData \<longleftrightarrow>
      (\<exists>nums. extractNumbers arr (key options) = Inr nums \<and> length nums = 1
              \<and> sample_flag options))
   \<and> (stdev arr options = Inl InsufficientData \<longleftrightarrow>
      (\<exists>nums. extractNumbers arr (key options) = Inr nums \<and> length nums = 1
              \<and> sample_flag options))
   \<and> (extractNumbers arr (key options) = Inr [] \<longrightarrow>
        variance arr options = Inr 0 \<and> stdev arr options = Inr 0)"
  using variance_insufficient_iff[of arr options] stdev_insufficient_iff[of arr options]
  by (simp add: variance_def stdev_def)

theorem variance_stdev_insufficient_iff_witness:
  "variance (JArr [JNum 5]) \<lparr>key = None, isSample = None\<rparr> = Inl InsufficientData
   \<and> stdev (JArr [JNum 5]) \<lparr>key = None, isSample = None\<rparr> = Inl InsufficientData
   \<and> variance (JArr [JNum 5]) \<lparr>key = None, isSample = Some False\<rparr> \<noteq> Inl InsufficientData
   \<and> extractNumbers (JArr [JNull]) None = Inr []
   \<and> variance (JArr [JNull]) \<lparr>key = None, isSample = Some True\<rparr> = Inr 0
   \<and> stdev (JArr [JNull]) \<lparr>key = None, isSample = Some True\<rparr> = Inr 0"
proof -
  have e5: "extractNumbers (JArr [JNum 5]) None = Inr [5]"
    by (simp add: extractNumbers_def mapped_values_def)
  have en: "extractNumbers (JArr [JNull]) None = Inr []"
    by (simp add: extractNumbers_def mapped_values_def)
  show ?thesis
    using variance_stdev_insufficient_iff[of "JArr [JNum 5]" "\<lparr>key = None, isSample = None\<rparr>"]
      variance_stdev_insufficient_iff[of "JArr [JNum 5]" "\<lparr>key = None, isSample = Some False\<rparr>"]
      variance_stdev_insufficient_iff[of "JArr [JNull]" "\<lparr>key = None, isSample = Some True\<rparr>"]
      e5 en
    by (simp add: sample_flag_def)
qed

text \<open>
  C3. \<open>variance\<close> of the one-element sequence \<open>[5]\<close> in sample mode fails with
  \<open>InsufficientData\<close>, and \<open>variance\<close> of the empty sequence in population mode returns 0.
\<close>

theorem variance_examples:
  "variance (JArr [JNum 5]) \<lparr>key = None, isSample = Some True\<rparr> = Inl InsufficientData
   \<and> variance (JArr []) \<lparr>key = None, isSample = Some False\<rparr> = Inr 0"
  by (simp add: variance_def extractNumbers_def mapped_values_def sample_flag_def)

subsection \<open>Rounding of results\<close>

text \<open>
  C4, as claimed: every number a calculator returns is a fixed point of \<open>toFixedNumber\<close> at
  precision 10. The median of the one-element sequence \<open>[2.5e-11]\<close> is that element, which
  rounds to 0:
\<close>

theorem median_unrounded_counterexample:
  "median (JArr [JNum (1 / 40000000000)]) None (sconst 0) = Inr (1 / 40000000000)
   \<and> toFixedNumber (1 / 40000000000) 10 \<noteq> 1 / 40000000000"
  by (simp add: median_def extractNumbers_def mapped_values_def THRESHOLD_def medianOf_def
      toFixedNumber_def round_def)

text \<open>
  C4, amended: what a calculator computes by arithmetic it returns through the rounding
  utility: every result of \<open>mean\<close>, \<open>variance\<close> and \<open>stdev\<close>, and the median of an even
  count at or above the threshold, is a value of \<open>toFixedNumber\<close> at precision 10, and
  every finite result of \<open>percentile\<close> is either such a value or an element of the
  extracted sequence. The median of an odd count is an element of the extracted sequence,
  returned as it is. (That a value of \<open>toFixedNumber\<close> is again a fixed point of it is
  not part of the amended claim.)
\<close>

theorem computed_results_rounded:
  "(mean arr k = Inr v \<longrightarrow> (\<exists>x. v = toFixedNumber x 10))
   \<and> (variance arr options = Inr v \<longrightarrow> (\<exists>x. v = toFixedNumber x 10))
   \<and> (stdev arr options = Inr v \<longrightarrow> (\<exists>x. v = toFixedNumber x 10))
   \<and> (extractNumbers arr k = Inr nums \<and> THRESHOLD \<le> length nums \<and> even (length nums)
        \<and> median arr k rng = Inr v \<longrightarrow> (\<exists>x. v = toFixedNumber x 10))
   \<and> (extractNumbers arr k = Inr nums \<and> percentile arr p k = Inr (Finite v) \<longrightarrow>
        v \<in> set nums \<or> (\<exists>x. v = toFixedNumber x 10))
   \<and> (extractNumbers arr k = Inr nums \<and> odd (length nums)
        \<and> median arr k rng = Inr v \<longrightarrow> v \<in> set nums)"
proof (intro conjI impI)
  show "mean arr k = Inr v \<Longrightarrow> \<exists>x. v = toFixedNumber x 10" by (rule mean_rounded)
  show "variance arr options = Inr v \<Longrightarrow> \<exists>x. v = toFixedNumber x 10"
    by (rule variance_rounded)
  show "stdev arr options = Inr v \<Longrightarrow> \<exists>x. v = toFixedNumber x 10" by (rule stdev_rounded)
  show "\<exists>x. v = toFixedNumber x 10"
    if "extractNumbers arr k = Inr nums \<and> THRESHOLD \<le> length nums \<and> even (length nums)
        \<and> median arr k rng = Inr v"
    using that median_large_even[of arr k nums rng] by auto
  show "v \<in> set nums \<or> (\<exists>x. v = toFixedNumber x 10)"
    if "extractNumbers arr k = Inr nums \<and> percentile arr p k = Inr (Finite v)"
    using that percentile_rounded_or_element[of arr k nums p v] by simp
  show "v \<in> set nums"
    if "extractNumbers arr k = Inr nums \<and> odd (length nums) \<and> median arr k rng = Inr v"
    using that median_odd_element[of arr k nums rng v] by simp
qed

theorem computed_results_rounded_witness:
  "mean (JArr [JNum 1, JNum 2, JNum 2]) None = Inr (16666666667 / 10000000000)
   \<and> (\<exists>x. 16666666667 / 10000000000 = toFixedNumber x 10)
   \<and> variance (JArr [JNum 1, JNum 2, JNum 2]) \<lparr>key = None, isSample = None\<rparr>
       = Inr (3333333333 / 10000000000)
   \<and> (\<exists>x. 3333333333 / 10000000000 = toFixedNumber x 10)
   \<and> stdev (JArr [JNum 1, JNum 3]) \<lparr>key = None, isSample = None\<rparr>
       = Inr (14142135624 / 10000000000)
   \<and> (\<exists>x. 14142135624 / 10000000000 = toFixedNumber x 10)
   \<and> median (JArr (replicate 32 (JNum (1 / 2048)))) None (sconst 0)
       = Inr (4882813 / 10000000000)
   \<and> (\<exists>x. 4882813 / 10000000000 = toFixedNumber x 10)
   \<and> percentile (JArr [JNum 0, JNum (1 / 1024)]) (Finite 50) None
       = Inr (Finite (4882813 / 10000000000))
   \<and> percentile (JArr [JNum 3, JNum 1, JNum 2]) (Finite 50) None = Inr (Finite 2)
   \<and> median (JArr [JNum 5]) None (sconst 0) = Inr 5"
proof -
  let ?o = "\<lparr>key = None, isSample = None\<rparr>"
  have e122: "extractNumbers (JArr [JNum 1, JNum 2, JNum 2]) None = Inr [1, 2, 2]"
    and e13: "extractNumbers (JArr [JNum 1, JNum 3]) None = Inr [1, 3]"
    and e5: "extractNumbers (JArr [JNum 5]) None = Inr [5]"
    and e01: "extractNumbers (JArr [JNum 0, JNum (1 / 1024)]) None = Inr [0, 1 / 1024]"
    and e312: "extractNumbers (JArr [JNum 3, JNum 1, JNum 2]) None = Inr [3, 1, 2]"
    by (simp_all add: extractNumbers_def mapped_values_def)
  have r53: "toFixedNumber (5 / 3) 10 = 16666666667 / 10000000000"
    and r13: "toFixedNumber (1 / 3) 10 = 3333333333 / 10000000000"
    and r2: "toFixedNumber 2 10 = 2"
    and r2048: "toFixedNumber (1 / 2048) 10 = 4882813 / 10000000000"
    by (simp_all add: toFixedNumber_def round_def)
  have lo: "28284271247 / 20000000000 \<le> sqrt 2"
  proof (rule real_le_rsqrt)
    show "(28284271247 / 20000000000)\<^sup>2 \<le> (2 :: real)" by (simp add: power2_eq_square)
  qed
  have hi: "sqrt 2 < 28284271249 / 20000000000"
  proof (rule real_less_lsqrt)
    show "(0 :: real) \<le> 28284271249 / 20000000000" by simp
    show "(2 :: real) < (28284271249 / 20000000000)\<^sup>2" by (simp add: power2_eq_square)
  qed
  have "round (sqrt 2 * 10000000000) = 14142135624"
  proof (rule round_unique)
    show "sqrt 2 * 10000000000 - 1 / 2 < real_of_int 14142135624" using hi by simp
    show "real_of_int 14142135624 \<le> sqrt 2 * 10000000000 + 1 / 2" using lo by simp
  qed
  then have rs2: "toFixedNumber (sqrt 2) 10 = 14142135624 / 10000000000"
    by (simp add: toFixedNumber_def)
  have c: "\<lceil>1 / 2 :: real\<rceil> = 1"
    by (rule ceiling_unique) simp_all
  have 1: "mean (JArr [JNum 1, JNum 2, JNum 2]) None = Inr (16666666667 / 10000000000)"
    by (simp add: mean_def e122 reduce_sum_def r53)
  have 2: "variance (JArr [JNum 1, JNum 2, JNum 2]) ?o = Inr (3333333333 / 10000000000)"
    by (simp add: variance_def e122 reduce_sum_def sum_of_squares_def sample_flag_def
        power2_eq_square r13)
  have 3: "stdev (JArr [JNum 1, JNum 3]) ?o = Inr (14142135624 / 10000000000)"
    by (simp add: stdev_def e13 reduce_sum_def sum_of_squares_def sample_flag_def r2 rs2)
  have 4: "median (JArr (replicate 32 (JNum (1 / 2048)))) None (sconst 0)
             = Inr (4882813 / 10000000000)"
    using median_large_even[OF extractNumbers_replicate, of 32 "1 / 2048" "sconst 0"]
    by (simp add: THRESHOLD_def sortBasedMedian_replicate r2048)
  have 5: "percentile (JArr [JNum 0, JNum (1 / 1024)]) (Finite 50) None
             = Inr (Finite (4882813 / 10000000000))"
    by (simp add: percentile_def e01 at_rank_def Let_def c r2048)
  have 6: "percentile (JArr [JNum 3, JNum 1, JNum 2]) (Finite 50) None = Inr (Finite 2)"
    by (simp add: percentile_def e312 at_rank_def Let_def)
  have 7: "median (JArr [JNum 5]) None (sconst 0) = Inr 5"
    by (simp add: median_def e5 THRESHOLD_def medianOf_def)
  have x1: "\<exists>x. 16666666667 / 10000000000 = toFixedNumber x 10"
    using computed_results_rounded[of "JArr [JNum 1, JNum 2, JNum 2]" None
        "16666666667 / 10000000000" ?o "[1, 2, 2]" "sconst 0" "Finite 50"] 1
    by simp
  have x2: "\<exists>x. 3333333333 / 10000000000 = toFixedNumber x 10"
    using computed_results_rounded[of "JArr [JNum 1, JNum 2, JNum 2]" None
        "3333333333 / 10000000000" ?o "[1, 2, 2]" "sconst 0" "Finite 50"] 2
    by simp
  have x3: "\<exists>x. 14142135624 / 10000000000 = toFixedNumber x 10"
    using computed_results_rounded[of "JArr [JNum 1, JNum 3]" None
        "14142135624 / 10000000000" ?o "[1, 3]" "sconst 0" "Finite 50"] 3
    by simp
  have x4: "\<exists>x. 4882813 / 10000000000 = toFixedNumber x 10"
    using computed_results_rounded[of "JArr (replicate 32 (JNum (1 / 2048)))" None
        "4882813 / 10000000000" ?o "replicate 32 (1 / 2048)" "sconst 0" "Finite 50"]
      4 extractNumbers_replicate[of 32 "1 / 2048"]
    by (simp add: THRESHOLD_def)
  from 1 2 3 4 5 6 7 x1 x2 x3 x4 show ?thesis by simp
qed

subsection \<open>The extractor\<close>



subsection \<open>Mode\<close>

text \<open>
  C6. The sequence \<open>mode\<close> returns is sorted ascending and has no duplicates, every value
  in it occurs in the extracted sequence with the maximum frequency of any value, and an
  empty extracted sequence gives the empty sequence. (The theorem also has the converse:
  every value of maximum frequency is returned.)
\<close>

theorem mode_sorted_distinct_maximal:
  assumes "extractNumbers arr k = Inr nums"
  shows "\<exists>res. mode arr k = Inr res \<and> sorted res \<and> distinct res
           \<and> (\<forall>v\<in>set res. v \<in> set nums \<and> count_list nums v = Max (count_list nums ` set nums))
           \<and> (\<forall>v\<in>set nums. count_list nums v = Max (count_list nums ` set nums) \<longrightarrow> v \<in> set res)
           \<and> (nums = [] \<longrightarrow> res = [])"
proof (cases "nums = []")
  case True
  with assms show ?thesis by (simp add: mode_def)
next
  case False
  define st where "st = foldl mode_step ([], 0) nums"
  define res where "res = map fst (filter (\<lambda>(num, count). count = snd st) (fst st))"
  have inv: "mode_inv st nums" unfolding st_def by (rule mode_inv_foldl)
  from inv have d: "distinct (map fst (fst st))"
    and mp: "\<And>v. map_of (fst st) v = (if v \<in> set nums then Some (count_list nums v) else None)"
    and le: "\<And>v. count_list nums v \<le> snd st"
    and ex: "\<exists>v\<in>set nums. count_list nums v = snd st"
    using False by (simp_all add: mode_inv_def)
  have mx: "Max (count_list nums ` set nums) = snd st"
  proof (rule Max_eqI)
    show "finite (count_list nums ` set nums)" by simp
    show "y \<le> snd st" if "y \<in> count_list nums ` set nums" for y
      using that le by auto
    show "snd st \<in> count_list nums ` set nums" using ex by (metis imageI)
  qed
  have m: "mode arr k = Inr (sort res)"
    using assms False by (simp add: mode_def st_def res_def Let_def)
  have sres: "set res = {v. map_of (fst st) v = Some (snd st)}"
    unfolding res_def using d by (rule set_keys_with_count)
  have dres: "distinct res"
    unfolding res_def using d by (rule distinct_map_filter)
  have a: "\<forall>v\<in>set (sort res). v \<in> set nums \<and> count_list nums v = Max (count_list nums ` set nums)"
    using sres mp mx by (auto split: if_splits)
  have b: "\<forall>v\<in>set nums. count_list nums v = Max (count_list nums ` set nums)
                   \<longrightarrow> v \<in> set (sort res)"
    using sres mp mx by simp
  show ?thesis
  proof (intro exI conjI)
    show "mode arr k = Inr (sort res)" by (rule m)
    show "sorted (sort res)" by simp
    show "distinct (sort res)" using dres by simp
    show "\<forall>v\<in>set (sort res). v \<in> set nums \<and> count_list nums v = Max (count_list nums ` set nums)"
      by (rule a)
    show "\<forall>v\<in>set nums. count_list nums v = Max (count_list nums ` set nums)
                   \<longrightarrow> v \<in> set (sort res)"
      by (rule b)
    show "nums = [] \<longrightarrow> sort res = []" using False by simp
  qed
qed

theorem mode_sorted_distinct_maximal_witness:
  "mode (JArr [JNum 30, JNum 20, JNum 10, JNum 20, JNum 30]) None = Inr [20, 30]
   \<and> sorted [20, 30 :: real] \<and> distinct [20, 30 :: real]
   \<and> count_list [30, 20, 10, 20, 30 :: real] 20 = 2
   \<and> count_list [30, 20, 10, 20, 30 :: real] 30 = 2
   \<and> mode (JArr []) None = Inr []"
proof -
  have e: "extractNumbers (JArr [JNum 30, JNum 20, JNum 10, JNum 20, JNum 30]) None
             = Inr [30, 20, 10, 20, 30]"
    by (simp add: extractNumbers_def mapped_values_def)
  have e0: "extractNumbers (JArr []) None = Inr []"
    by (simp add: extractNumbers_def)
  have m: "mode (JArr [JNum 30, JNum 20, JNum 10, JNum 20, JNum 30]) None = Inr [20, 30]"
    by (simp add: mode_def e mode_step_def Let_def)
  from mode_sorted_distinct_maximal[OF e]
  obtain res where r: "mode (JArr [JNum 30, JNum 20, JNum 10, JNum 20, JNum 30]) None = Inr res"
    and sd: "sorted res" "distinct res"
    by (elim exE conjE)
  from r m have "res = [20, 30]" by simp
  with sd have 1: "sorted [20, 30 :: real] \<and> distinct [20, 30 :: real]" by simp
  from mode_sorted_distinct_maximal[OF e0]
  obtain res0 where "mode (JArr []) None = Inr res0" and "[] = ([] :: real list) \<longrightarrow> res0 = []"
    by (elim exE conjE)
  then have 2: "mode (JArr []) None = Inr []" by simp
  from m 1 2 show ?thesis by simp
qed

subsection \<open>Percentile\<close>

text \<open>
  C7. For a non-empty extracted sequence, \<open>percentile\<close> at \<open>p = 0\<close> is \<open>Math.min\<close> of the
  sequence, its minimum, and at \<open>p = 100\<close> it is \<open>Math.max\<close>, its maximum.
\<close>

theorem percentile_min_max:
  assumes "extractNumbers arr k = Inr nums" and "nums \<noteq> []"
  shows "percentile arr (Finite 0) k = Inr (Finite (Math_min nums))
       \<and> Math_min nums = Min (set nums)
       \<and> percentile arr (Finite 100) k = Inr (Finite (Math_max nums))
       \<and> Math_max nums = Max (set nums)"
  using assms by (simp add: percentile_def Math_min_Min Math_max_Max)

theorem percentile_min_max_witness:
  "percentile (JArr [JNum 3, JNum 1, JNull, JNum 2]) (Finite 0) None = Inr (Finite 1)
   \<and> percentile (JArr [JNum 3, JNum 1, JNull, JNum 2]) (Finite 100) None = Inr (Finite 3)"
proof -
  have e: "extractNumbers (JArr [JNum 3, JNum 1, JNull, JNum 2]) None = Inr [3, 1, 2]"
    by (simp add: extractNumbers_def mapped_values_def)
  show ?thesis
    using percentile_min_max[OF e] by simp
qed

text \<open>
  C10. The claim: for every \<open>p\<close> outside \<open>[0, 100]\<close> and every input value, \<open>percentile\<close>
  fails with \<open>InvalidRange\<close>, never with \<open>InvalidInputKind\<close> or \<open>NonNumericValue\<close>. The
  check does come first, and it rejects every \<open>p\<close> below 0 or above 100, the infinities
  included (lemmas \<open>percentile_validates_first\<close> and \<open>percentile_infinite\<close>). But \<open>NaN\<close>,
  a number that is not in \<open>[0, 100]\<close>, is neither below 0 nor above 100 for the
  comparison: it passes the check and the input is extracted. The theorem evaluates
  \<open>percentile\<close> at \<open>NaN\<close> on a value that is not an array, on an array with a string in
  it, and on an array of numbers.
\<close>

theorem percentile_nan_passes_check:
  "percentile (JStr ''not an array'') NotANumber None = Inl InvalidInputKind
   \<and> percentile (JArr [JNum 1, JStr ''x'']) NotANumber None
       = Inl (NonNumericValue 1 (JStr ''x''))
   \<and> percentile (JArr [JNum 1, JNum 2]) NotANumber None = Inr NotANumber"
  by (simp add: percentile_def extractNumbers_def mapped_values_def)

subsection \<open>The input array is not written\<close>

text \<open>
  C8. A call of \<open>mean\<close>, \<open>median\<close>, \<open>mode\<close>, \<open>range\<close>, \<open>variance\<close>, \<open>stdev\<close> or
  \<open>percentile\<close> leaves every array that was in the store before the call as it was, the
  input array among them: all writes go to arrays the call itself has allocated. (Lemmas
  \<open>mean_st_spec\<close> to \<open>mode_st_spec\<close> show that the functions on the store return what the
  functions on values return.)
\<close>

theorem calculators_preserve_input:
  assumes "valid_input st arr"
  shows "preserves st (fst (mean_st st arr k))
       \<and> preserves st (fst (median_st st arr k rng))
       \<and> preserves st (fst (mode_st st arr k))
       \<and> preserves st (fst (range_st st arr k))
       \<and> preserves st (fst (variance_st st arr options))
       \<and> preserves st (fst (stdev_st st arr options))
       \<and> preserves st (fst (percentile_st st arr p k))"
  using assms
  by (simp add: mean_st_preserves median_st_preserves mode_st_preserves range_st_preserves
      variance_st_preserves stdev_st_preserves percentile_st_preserves)

theorem calculators_preserve_input_witness:
  "valid_input [[JNum 3, JNum 1, JNum 2]] (ArrayAt 0)
   \<and> median_st [[JNum 3, JNum 1, JNum 2]] (ArrayAt 0) None (sconst 0)
       = ([[JNum 3, JNum 1, JNum 2], [JNum 3, JNum 1, JNum 2], [JNum 1, JNum 2, JNum 3]], Inr 2)
   \<and> fst (median_st [[JNum 3, JNum 1, JNum 2]] (ArrayAt 0) None (sconst 0)) ! 0
       = [JNum 3, JNum 1, JNum 2]
   \<and> fst (mode_st [[JNum 3, JNum 1, JNum 2]] (ArrayAt 0) None) ! 0 = [JNum 3, JNum 1, JNum 2]
   \<and> fst (percentile_st [[JNum 3, JNum 1, JNum 2]] (ArrayAt 0) (Finite 50) None) ! 0
       = [JNum 3, JNum 1, JNum 2]"
proof -
  have v: "valid_input [[JNum 3, JNum 1, JNum 2]] (ArrayAt 0)" by simp
  have m: "median_st [[JNum 3, JNum 1, JNum 2]] (ArrayAt 0) None (sconst 0)
       = ([[JNum 3, JNum 1, JNum 2], [JNum 3, JNum 1, JNum 2], [JNum 1, JNum 2, JNum 3]], Inr 2)"
    by (simp add: median_st_def extractNumbers_st_def new_array_def sort_in_place_def
        numbers_at_def THRESHOLD_def medianOf_def Let_def)
  show ?thesis
    using calculators_preserve_input[OF v, of None "sconst 0"
        "\<lparr>key = None, isSample = None\<rparr>" "Finite 50"] m
    by (simp add: preserves_def)
qed

subsection \<open>Termination of quickselect\<close>

text \<open>
  C9. For bounds \<open>0 \<le> left \<le> k \<le> right < length a\<close> and every random stream,
  \<open>quickselect\<close> returns through the branch \<open>k === storeIndex\<close>, never through the
  \<open>return\<close> after the loop. A pass keeps the length of the array and puts \<open>storeIndex\<close>
  inside the bound, so that the bound on either side of it is strictly narrower and still
  contains \<open>k\<close> when \<open>k\<close> is not \<open>storeIndex\<close>: the width \<open>right - left\<close> decreases with
  every pass that does not return, which is the measure of the termination proof of
  \<open>quickselect\<close>.
\<close>

theorem quickselect_terminates_found:
  assumes "0 \<le> left" and "left \<le> k" and "k \<le> right" and "right < int (length a)"
  shows "(\<exists>v a' rng'. quickselect a k left right rng = Found v a' rng')
       \<and> (\<forall>a' s. partition_pass a (nat left) (nat right) (shd rng) = (a', s) \<longrightarrow>
             length a' = length a \<and> left \<le> int s \<and> int s \<le> right
             \<and> (int s - 1) - left < right - left \<and> right - (int s + 1) < right - left)"
proof
  show "\<exists>v a' rng'. quickselect a k left right rng = Found v a' rng'"
    using assms by (rule quickselect_returns_found)
  show "\<forall>a' s. partition_pass a (nat left) (nat right) (shd rng) = (a', s) \<longrightarrow>
             length a' = length a \<and> left \<le> int s \<and> int s \<le> right
             \<and> (int s - 1) - left < right - left \<and> right - (int s + 1) < right - left"
  proof (intro allI impI)
    fix a' s
    assume pp: "partition_pass a (nat left) (nat right) (shd rng) = (a', s)"
    have lr: "nat left \<le> nat right" and rn: "nat right < length a"
      using assms by simp_all
    from partition_pass_spec[OF pp lr rn]
    have "length a' = length a" and "nat left \<le> s" and "s \<le> nat right"
      by simp_all
    with assms show "length a' = length a \<and> left \<le> int s \<and> int s \<le> right
             \<and> (int s - 1) - left < right - left \<and> right - (int s + 1) < right - left"
      by auto
  qed
qed

theorem quickselect_terminates_found_witness:
  "quickselect [3, 1, 2] 1 0 2 (sconst 0) = Found 2 [1, 2, 3] (sconst 0)
   \<and> partition_pass [3, 1, 2] 0 2 0 = ([2, 1, 3], 2)
   \<and> (2 - 1) - 0 < (2 - 0 :: int)"
proof -
  have q: "quickselect [3, 1, 2] 1 0 2 (sconst 0) = Found 2 [1, 2, 3] (sconst 0)"
    by (simp add: quickselect_simps partition_pass_def random_index_def swap_def
        partition_loop_simps Let_def)
  have p: "partition_pass [3, 1, 2] 0 2 0 = ([2, 1, 3], 2)"
    by (simp add: partition_pass_def random_index_def swap_def partition_loop_simps Let_def)
  show ?thesis
    using quickselect_terminates_found[of 0 1 2 "[3, 1, 2]" "sconst 0"] q p by simp
qed

end
